theory Spec2Isabelle
  imports Main "HOL-Library.Word" "HOL-Library.Monad_Syntax" "HOL-Library.Multiset"
begin

unbundle bit_operations_syntax

section \<open>Cells\<close>

text \<open>
  Modelled from the spec: the cell type \<^verbatim>\<open>Character\<close> and its colour type are declared in
  headers (Character.h, CharacterColor.h) that are not among the sources. The spec gives a
  cell as \<^verbatim>\<open>{codepoint, rendition_bits, fg_color, bg_color}\<close>, the code point a 16-bit
  unit (History.cpp copies it into a \<^verbatim>\<open>quint16\<close> array); colours and rendition
  together form the format. A colour is kept as its four bytes.
\<close>

type_synonym byte = "8 word"

record CharacterColor =
  colorSpace :: byte
  color_u :: byte
  color_v :: byte
  color_w :: byte

record Character =
  character :: "16 word"
  rendition :: byte
  foregroundColor :: CharacterColor
  backgroundColor :: CharacterColor

text \<open>
  Modelled from the spec: the default blank cell (a space in the default colours with no
  rendition), which \<^verbatim>\<open>new Character[size]\<close> and \<^verbatim>\<open>Screen::fillWithDefaultChar\<close>
  produce.
\<close>

definition Character_default :: Character where
  "Character_default =
     \<lparr> character = 32, rendition = 0,
       foregroundColor = \<lparr> colorSpace = 1, color_u = 0, color_v = 0, color_w = 0 \<rparr>,
       backgroundColor = \<lparr> colorSpace = 1, color_u = 1, color_v = 0, color_w = 0 \<rparr> \<rparr>"

text \<open>
  Modelled from the spec: format-only equality of two cells (\<^verbatim>\<open>Character::equalsFormat\<close>,
  declared in the missing Character.h): rendition and both colours agree.
\<close>

definition equalsFormat :: "Character \<Rightarrow> Character \<Rightarrow> bool" where
  "equalsFormat a b \<longleftrightarrow>
     backgroundColor a = backgroundColor b \<and>
     foregroundColor a = foregroundColor b \<and>
     rendition a = rendition b"

section \<open>The view window (ScreenWindow)\<close>

subsection \<open>The Screen collaborator\<close>

text \<open>
  Modelled from the spec: per-line metadata, with the two named flags and the remaining
  bits kept opaque. A default-constructed entry has every flag clear.
\<close>

record LineProperty =
  lp_wrapped :: bool
  lp_prompt_start :: bool
  lp_other :: nat

definition LineProperty_default :: LineProperty where
  "LineProperty_default = \<lparr> lp_wrapped = False, lp_prompt_start = False, lp_other = 0 \<rparr>"

text \<open>
  The live Screen is an external collaborator. The window only reads the values below and
  sends it selection requests; the requests the Screen has received are kept as a log.
  C++ \<^verbatim>\<open>int\<close> values are mathematical integers here: line and column counts are far
  from the range limits.
\<close>

datatype ScreenCall =
  SetSelectionStart int int bool
| SetSelectionEnd int int bool
| ClearSelection

record Screen =
  Screen_getColumns :: int
  Screen_getLines :: int
  Screen_getHistLines :: int
  Screen_getOldTotalLines :: int
  Screen_isResize :: bool
  Screen_scrolledLines :: int
  Screen_droppedLines :: int
  Screen_hasRepl :: bool
  Screen_getLineProperties :: "int \<Rightarrow> int \<Rightarrow> LineProperty list"
  Screen_getImage :: "int \<Rightarrow> int \<Rightarrow> int \<Rightarrow> Character list"
  Screen_calls :: "ScreenCall list"

definition Screen_setSelectionStart :: "int \<Rightarrow> int \<Rightarrow> bool \<Rightarrow> Screen \<Rightarrow> Screen" where
  "Screen_setSelectionStart column line columnMode s =
     s\<lparr> Screen_calls := Screen_calls s @ [SetSelectionStart column line columnMode] \<rparr>"

definition Screen_setSelectionEnd :: "int \<Rightarrow> int \<Rightarrow> bool \<Rightarrow> Screen \<Rightarrow> Screen" where
  "Screen_setSelectionEnd column line trim s =
     s\<lparr> Screen_calls := Screen_calls s @ [SetSelectionEnd column line trim] \<rparr>"

definition Screen_clearSelection :: "Screen \<Rightarrow> Screen" where
  "Screen_clearSelection s = s\<lparr> Screen_calls := Screen_calls s @ [ClearSelection] \<rparr>"

subsection \<open>Window state\<close>

datatype Signal =
  ScreenAboutToChange
| OutputChanged
| Scrolled int
| SelectionChanged
| CurrentResultLineChanged

text \<open>
  The members of \<^verbatim>\<open>ScreenWindow\<close>, each \<^verbatim>\<open>_name\<close> written \<open>m_name\<close>. The window
  buffer is \<open>None\<close> while it is the null pointer. \<open>emitted\<close> lists the signals sent so far.
\<close>

record ScreenWindow =
  m_screen :: Screen
  m_windowBuffer :: "Character list option"
  m_windowBufferSize :: int
  m_bufferNeedsUpdate :: bool
  m_windowLines :: int
  m_currentLine :: int
  m_currentResultLine :: int
  m_trackOutput :: bool
  m_scrollCount :: int
  emitted :: "Signal list"

definition emit :: "Signal \<Rightarrow> ScreenWindow \<Rightarrow> ScreenWindow" where
  "emit sig w = w\<lparr> emitted := emitted w @ [sig] \<rparr>"

text \<open>Qt's \<^verbatim>\<open>qBound(min, val, max)\<close> is \<^verbatim>\<open>qMax(min, qMin(max, val))\<close>.\<close>

definition qBound :: "int \<Rightarrow> int \<Rightarrow> int \<Rightarrow> int" where
  "qBound lo val hi = max lo (min hi val)"

definition ScreenWindow_new :: "Screen \<Rightarrow> ScreenWindow" where
  "ScreenWindow_new scr =
     \<lparr> m_screen = scr, m_windowBuffer = None, m_windowBufferSize = 0,
       m_bufferNeedsUpdate = True, m_windowLines = 1, m_currentLine = 0,
       m_currentResultLine = -1, m_trackOutput = True, m_scrollCount = 0,
       emitted = [ScreenAboutToChange] \<rparr>"

definition ScreenWindow_windowLines :: "ScreenWindow \<Rightarrow> int" where
  "ScreenWindow_windowLines w = m_windowLines w"

definition ScreenWindow_windowColumns :: "ScreenWindow \<Rightarrow> int" where
  "ScreenWindow_windowColumns w = Screen_getColumns (m_screen w)"

definition ScreenWindow_lineCount :: "ScreenWindow \<Rightarrow> int" where
  "ScreenWindow_lineCount w = Screen_getHistLines (m_screen w) + Screen_getLines (m_screen w)"

definition ScreenWindow_currentLine :: "ScreenWindow \<Rightarrow> int" where
  "ScreenWindow_currentLine w =
     qBound 0 (m_currentLine w)
       (max 0 (ScreenWindow_lineCount w - ScreenWindow_windowLines w))"

definition ScreenWindow_endWindowLine :: "ScreenWindow \<Rightarrow> int" where
  "ScreenWindow_endWindowLine w =
     min (ScreenWindow_currentLine w + ScreenWindow_windowLines w - 1)
         (ScreenWindow_lineCount w - 1)"

text \<open>
  \<^verbatim>\<open>QVector::resize(n)\<close> drops the entries past \<open>n\<close> or appends default-constructed ones. A
  negative size is an assertion failure in Qt; \<^verbatim>\<open>setWindowLines\<close> asserts that the window
  height is positive.
\<close>

definition QVector_resize :: "'a \<Rightarrow> int \<Rightarrow> 'a list \<Rightarrow> 'a list" where
  "QVector_resize dflt n xs = take (nat n) xs @ replicate (nat n - length xs) dflt"

definition ScreenWindow_getLineProperties :: "ScreenWindow \<Rightarrow> LineProperty list" where
  "ScreenWindow_getLineProperties w =
     (let result = Screen_getLineProperties (m_screen w)
                     (ScreenWindow_currentLine w) (ScreenWindow_endWindowLine w)
      in if int (length result) \<noteq> ScreenWindow_windowLines w
         then QVector_resize LineProperty_default (ScreenWindow_windowLines w) result
         else result)"

subsection \<open>Image materialisation\<close>

text \<open>
  \<^verbatim>\<open>fillUnusedArea\<close> overwrites the last \<open>charsToFill\<close> cells of the buffer with the
  default cell.
\<close>

definition ScreenWindow_fillUnusedArea :: "ScreenWindow \<Rightarrow> Character list \<Rightarrow> Character list" where
  "ScreenWindow_fillUnusedArea w buf =
     (let screenEndLine = Screen_getHistLines (m_screen w) + Screen_getLines (m_screen w) - 1;
          windowEndLine = ScreenWindow_currentLine w + ScreenWindow_windowLines w - 1;
          unusedLines = windowEndLine - screenEndLine
      in if unusedLines \<le> 0 then buf
         else (let charsToFill = unusedLines * ScreenWindow_windowColumns w
               in take (nat (m_windowBufferSize w - charsToFill)) buf
                  @ replicate (nat charsToFill) Character_default))"

text \<open>
  \<^verbatim>\<open>getImage\<close> returns the buffer and the window with its cache brought up to date. The
  Screen writes the cells of the requested lines over the front of the buffer.
\<close>

definition ScreenWindow_getImage :: "ScreenWindow \<Rightarrow> Character list \<times> ScreenWindow" where
  "ScreenWindow_getImage w =
     (let size' = ScreenWindow_windowLines w * ScreenWindow_windowColumns w;
          w1 = (if m_windowBuffer w = None \<or> m_windowBufferSize w \<noteq> size'
                then w\<lparr> m_windowBufferSize := size',
                        m_windowBuffer := Some (replicate (nat size') Character_default),
                        m_bufferNeedsUpdate := True \<rparr>
                else w);
          old = (case m_windowBuffer w1 of None \<Rightarrow> [] | Some b \<Rightarrow> b)
      in if \<not> m_bufferNeedsUpdate w1 then (old, w1)
         else (let drawn = take (nat size')
                             (Screen_getImage (m_screen w1) size'
                                (ScreenWindow_currentLine w1) (ScreenWindow_endWindowLine w1));
                   buf = ScreenWindow_fillUnusedArea w1 (drawn @ drop (length drawn) old)
               in (buf, w1\<lparr> m_windowBuffer := Some buf, m_bufferNeedsUpdate := False \<rparr>)))"

subsection \<open>Selection\<close>

definition ScreenWindow_setSelectionStart :: "int \<Rightarrow> int \<Rightarrow> bool \<Rightarrow> ScreenWindow \<Rightarrow> ScreenWindow" where
  "ScreenWindow_setSelectionStart column line columnMode w =
     emit SelectionChanged
       (w\<lparr> m_screen := Screen_setSelectionStart column (line + ScreenWindow_currentLine w)
                          columnMode (m_screen w),
           m_bufferNeedsUpdate := True \<rparr>)"

definition ScreenWindow_setSelectionEnd :: "int \<Rightarrow> int \<Rightarrow> bool \<Rightarrow> ScreenWindow \<Rightarrow> ScreenWindow" where
  "ScreenWindow_setSelectionEnd column line trimTrailingWhitespace w =
     emit SelectionChanged
       (w\<lparr> m_screen := Screen_setSelectionEnd column (line + ScreenWindow_currentLine w)
                          trimTrailingWhitespace (m_screen w),
           m_bufferNeedsUpdate := True \<rparr>)"

definition ScreenWindow_clearSelection :: "ScreenWindow \<Rightarrow> ScreenWindow" where
  "ScreenWindow_clearSelection w =
     emit SelectionChanged (w\<lparr> m_screen := Screen_clearSelection (m_screen w) \<rparr>)"

definition ScreenWindow_setSelectionByLineRange :: "int \<Rightarrow> int \<Rightarrow> ScreenWindow \<Rightarrow> ScreenWindow" where
  "ScreenWindow_setSelectionByLineRange start end' w =
     (let w1 = ScreenWindow_clearSelection w;
          s1 = Screen_setSelectionStart 0 start False (m_screen w1);
          s2 = Screen_setSelectionEnd (ScreenWindow_windowColumns w1) end' False s1
      in emit SelectionChanged (w1\<lparr> m_screen := s2, m_bufferNeedsUpdate := True \<rparr>))"

subsection \<open>Scrolling, tracking and resize\<close>

definition ScreenWindow_scrollTo :: "int \<Rightarrow> ScreenWindow \<Rightarrow> ScreenWindow" where
  "ScreenWindow_scrollTo line0 w =
     (let maxCurrentLineNumber = ScreenWindow_lineCount w - ScreenWindow_windowLines w;
          line = qBound 0 line0 maxCurrentLineNumber;
          delta = line - m_currentLine w
      in emit (Scrolled line)
           (w\<lparr> m_currentLine := line,
               m_scrollCount := m_scrollCount w + delta,
               m_bufferNeedsUpdate := True \<rparr>))"

definition ScreenWindow_setTrackOutput :: "bool \<Rightarrow> ScreenWindow \<Rightarrow> ScreenWindow" where
  "ScreenWindow_setTrackOutput trackOutput w = w\<lparr> m_trackOutput := trackOutput \<rparr>"

definition ScreenWindow_resetScrollCount :: "ScreenWindow \<Rightarrow> ScreenWindow" where
  "ScreenWindow_resetScrollCount w = w\<lparr> m_scrollCount := 0 \<rparr>"

definition ScreenWindow_updateCurrentLine :: "ScreenWindow \<Rightarrow> ScreenWindow" where
  "ScreenWindow_updateCurrentLine w =
     (if \<not> Screen_isResize (m_screen w) then w
      else (let c1 = (if m_currentLine w > 0
                      then m_currentLine w
                           - (Screen_getOldTotalLines (m_screen w) - ScreenWindow_lineCount w)
                      else m_currentLine w)
            in w\<lparr> m_currentLine :=
                    qBound 0 c1 (ScreenWindow_lineCount w - ScreenWindow_windowLines w) \<rparr>))"

definition ScreenWindow_notifyOutputChanged :: "ScreenWindow \<Rightarrow> ScreenWindow" where
  "ScreenWindow_notifyOutputChanged w =
     (let w1 = (if m_trackOutput w
                then w\<lparr> m_scrollCount := m_scrollCount w - Screen_scrolledLines (m_screen w),
                        m_currentLine :=
                          max 0 (Screen_getHistLines (m_screen w)
                                 - (ScreenWindow_windowLines w - Screen_getLines (m_screen w))) \<rparr>
                else w\<lparr> m_currentLine :=
                          min (max 0 (m_currentLine w - Screen_droppedLines (m_screen w)))
                              (Screen_getHistLines (m_screen w)) \<rparr>)
      in emit OutputChanged (w1\<lparr> m_bufferNeedsUpdate := True \<rparr>))"

definition ScreenWindow_setWindowLines :: "int \<Rightarrow> ScreenWindow \<Rightarrow> ScreenWindow option" where
  "ScreenWindow_setWindowLines lines w =
     (if lines > 0 then Some (w\<lparr> m_windowLines := lines \<rparr>) else None)"

definition ScreenWindow_atEndOfOutput :: "ScreenWindow \<Rightarrow> bool" where
  "ScreenWindow_atEndOfOutput w \<longleftrightarrow>
     ScreenWindow_currentLine w = ScreenWindow_lineCount w - ScreenWindow_windowLines w"

subsection \<open>Example windows\<close>

text \<open>
  A Screen of 80 columns and 24 lines over 100 history lines. It answers a request for line
  properties with five entries that carry the prompt flag, whatever the range.
\<close>

definition exampleScreen :: Screen where
  "exampleScreen =
     \<lparr> Screen_getColumns = 80, Screen_getLines = 24, Screen_getHistLines = 100,
       Screen_getOldTotalLines = 124, Screen_isResize = False, Screen_scrolledLines = 1,
       Screen_droppedLines = 0, Screen_hasRepl = False,
       Screen_getLineProperties =
         (\<lambda>from to. replicate 5 \<lparr> lp_wrapped = False, lp_prompt_start = True, lp_other = 0 \<rparr>),
       Screen_getImage = (\<lambda>size' from to. replicate (nat size') Character_default),
       Screen_calls = [] \<rparr>"

definition exampleWindow :: "int \<Rightarrow> ScreenWindow" where
  "exampleWindow height = (ScreenWindow_new exampleScreen)\<lparr> m_windowLines := height \<rparr>"

section \<open>The compact history store\<close>

subsection \<open>Slab allocator\<close>

text \<open>
  Modelled from the spec: the class \<^verbatim>\<open>CompactHistoryBlock\<close> is declared in History.h, which
  is not among the sources; only its \<^verbatim>\<open>allocate\<close> and \<^verbatim>\<open>deallocate\<close> are in
  History.cpp. Following the spec, a block is a contiguous slab of fixed length with a bump
  pointer \<open>tail\<close> and a signed count of live allocations; \<^verbatim>\<open>remaining()\<close> is the room
  behind the bump pointer, \<^verbatim>\<open>contains(p)\<close> tests the address range of the slab and
  \<^verbatim>\<open>isInUse()\<close> tests the count against zero. Addresses are natural numbers.
\<close>

record CompactHistoryBlock =
  blockLength :: nat
  tail :: nat
  blockStart :: nat
  allocCount :: int

definition CompactHistoryBlock_remaining :: "CompactHistoryBlock \<Rightarrow> nat" where
  "CompactHistoryBlock_remaining b = blockStart b + blockLength b - tail b"

definition CompactHistoryBlock_contains :: "CompactHistoryBlock \<Rightarrow> nat \<Rightarrow> bool" where
  "CompactHistoryBlock_contains b addr \<longleftrightarrow>
     addr \<ge> blockStart b \<and> addr < blockStart b + blockLength b"

definition CompactHistoryBlock_isInUse :: "CompactHistoryBlock \<Rightarrow> bool" where
  "CompactHistoryBlock_isInUse b \<longleftrightarrow> allocCount b \<noteq> 0"

text \<open>
  \<^verbatim>\<open>CompactHistoryBlock::allocate\<close>. The outer \<open>None\<close> is the failed assertion
  \<^verbatim>\<open>size > 0\<close>; the inner one is the null pointer returned when the slab has no room.
\<close>

definition CompactHistoryBlock_allocate ::
  "nat \<Rightarrow> CompactHistoryBlock \<Rightarrow> (nat option \<times> CompactHistoryBlock) option" where
  "CompactHistoryBlock_allocate size' b =
     (if \<not> size' > 0 then None
      else if tail b - blockStart b + size' > blockLength b then Some (None, b)
      else Some (Some (tail b), b\<lparr> tail := tail b + size', allocCount := allocCount b + 1 \<rparr>))"

text \<open>
  \<^verbatim>\<open>CompactHistoryBlock::deallocate\<close>; \<open>None\<close> is the failed assertion
  \<^verbatim>\<open>allocCount >= 0\<close>.
\<close>

definition CompactHistoryBlock_deallocate :: "CompactHistoryBlock \<Rightarrow> CompactHistoryBlock option" where
  "CompactHistoryBlock_deallocate b =
     (let b' = b\<lparr> allocCount := allocCount b - 1 \<rparr>
      in if allocCount b' \<ge> 0 then Some b' else None)"

text \<open>
  The block list. Besides the list of the source it carries the two things the missing
  constructor of a block takes from its environment: the length of a slab, and the address
  at which the operating system places the next slab (slabs that are alive never overlap;
  the model hands out increasing addresses).
\<close>

record CompactHistoryBlockList =
  bl_list :: "CompactHistoryBlock list"
  slabLength :: nat
  nextSlab :: nat

definition CompactHistoryBlock_new :: "nat \<Rightarrow> nat \<Rightarrow> CompactHistoryBlock" where
  "CompactHistoryBlock_new len start =
     \<lparr> blockLength = len, tail = start, blockStart = start, allocCount = 0 \<rparr>"

definition CompactHistoryBlockList_new :: "nat \<Rightarrow> CompactHistoryBlockList" where
  "CompactHistoryBlockList_new len = \<lparr> bl_list = [], slabLength = len, nextSlab = 0 \<rparr>"

definition CompactHistoryBlockList_allocate ::
  "nat \<Rightarrow> CompactHistoryBlockList \<Rightarrow> (nat option \<times> CompactHistoryBlockList) option" where
  "CompactHistoryBlockList_allocate size' bl =
     (let bl1 = (if bl_list bl = [] \<or> CompactHistoryBlock_remaining (last (bl_list bl)) < size'
                 then bl\<lparr> bl_list := bl_list bl
                                       @ [CompactHistoryBlock_new (slabLength bl) (nextSlab bl)],
                         nextSlab := nextSlab bl + slabLength bl \<rparr>
                 else bl)
      in case CompactHistoryBlock_allocate size' (last (bl_list bl1)) of
           None \<Rightarrow> None
         | Some (p, block) \<Rightarrow> Some (p, bl1\<lparr> bl_list := butlast (bl_list bl1) @ [block] \<rparr>))"

text \<open>
  The search loop of \<^verbatim>\<open>CompactHistoryBlockList::deallocate\<close>: the index of the first block
  that contains the pointer. \<^verbatim>\<open>list.at(i)\<close> past the end is an assertion failure in Qt,
  here \<open>None\<close>.
\<close>

function findBlock :: "CompactHistoryBlock list \<Rightarrow> nat \<Rightarrow> nat \<Rightarrow> nat option" where
  "findBlock list ptr i =
     (if i < length list
      then (if \<not> CompactHistoryBlock_contains (list ! i) ptr then findBlock list ptr (i + 1)
            else Some i)
      else None)"
  by pat_completeness auto
termination
  by (relation "measure (\<lambda>(list, ptr, i). length list - i)") auto

declare findBlock.simps [simp del]

definition CompactHistoryBlockList_deallocate ::
  "nat \<Rightarrow> CompactHistoryBlockList \<Rightarrow> CompactHistoryBlockList option" where
  "CompactHistoryBlockList_deallocate ptr bl =
     (if bl_list bl = [] then None
      else case findBlock (bl_list bl) ptr 0 of
             None \<Rightarrow> None
           | Some i \<Rightarrow>
               (case CompactHistoryBlock_deallocate (bl_list bl ! i) of
                  None \<Rightarrow> None
                | Some block \<Rightarrow>
                    if \<not> CompactHistoryBlock_isInUse block
                    then Some (bl\<lparr> bl_list := take i (bl_list bl) @ drop (i + 1) (bl_list bl) \<rparr>)
                    else Some (bl\<lparr> bl_list := (bl_list bl)[i := block] \<rparr>)))"

text \<open>The number of live allocations of the allocator: the sum of the blocks' counts.\<close>

definition liveAllocations :: "CompactHistoryBlockList \<Rightarrow> int" where
  "liveAllocations bl = sum_list (map allocCount (bl_list bl))"

subsection \<open>Compressed lines\<close>

text \<open>
  Modelled from the spec: \<^verbatim>\<open>CharacterFormat\<close> (declared in the missing History.h), one
  format run: the column it starts at and the format (rendition and both colours), with
  \<^verbatim>\<open>setFormat\<close> copying the format of a cell. The start column is a 16-bit unsigned
  field (\<^verbatim>\<open>quint16 startPos\<close>), as the twelve bytes of the object allow. Object sizes are
  those of the usual 64-bit layout.
\<close>

record CharacterFormat =
  cf_fgColor :: CharacterColor
  cf_bgColor :: CharacterColor
  cf_startPos :: "16 word"
  cf_rendition :: byte

definition CharacterFormat_setFormat :: "Character \<Rightarrow> CharacterFormat \<Rightarrow> CharacterFormat" where
  "CharacterFormat_setFormat c f =
     f\<lparr> cf_rendition := rendition c, cf_fgColor := foregroundColor c,
        cf_bgColor := backgroundColor c \<rparr>"

text \<open>Fresh slab memory is zero-filled; this is a format run read from it.\<close>

definition CharacterFormat_zero :: CharacterFormat where
  "CharacterFormat_zero =
     \<lparr> cf_fgColor = \<lparr> colorSpace = 0, color_u = 0, color_v = 0, color_w = 0 \<rparr>,
       cf_bgColor = \<lparr> colorSpace = 0, color_u = 0, color_v = 0, color_w = 0 \<rparr>,
       cf_startPos = 0, cf_rendition = 0 \<rparr>"

definition sizeof_CharacterFormat :: nat where
  "sizeof_CharacterFormat = 12"

definition sizeof_quint16 :: nat where
  "sizeof_quint16 = 2"

definition sizeof_CompactHistoryLine :: nat where
  "sizeof_CompactHistoryLine = 48"

text \<open>
  A line. \<open>cl_this\<close> is the address of the line header. The two arrays live in slab memory:
  each is kept as its address with its content, and is \<open>None\<close> while the pointer was never
  assigned (a line built from no cells). \<open>cl_wrapped\<close> is \<open>None\<close> until it is assigned.
  Modelled from the spec: the members \<^verbatim>\<open>length\<close> and \<^verbatim>\<open>formatLength\<close> are declared in
  the missing History.h; they are 16-bit unsigned (\<^verbatim>\<open>quint16\<close>), like the code points of
  \<^verbatim>\<open>text\<close>, so that an assignment keeps the value modulo 65536 and a comparison with an
  \<^verbatim>\<open>int\<close> reads the field as a number below 65536 (\<open>unat\<close>).
\<close>

record CompactHistoryLine =
  cl_this :: nat
  cl_formatArray :: "(nat \<times> CharacterFormat list) option"
  cl_text :: "(nat \<times> 16 word list) option"
  cl_length :: "16 word"
  cl_formatLength :: "16 word"
  cl_wrapped :: "bool option"

text \<open>
  The first loop of the constructor, \<^verbatim>\<open>while (k < length)\<close> over the member \<open>length'\<close>:
  count the format changes from column \<open>k\<close> on.
\<close>

function countFormats ::
  "Character list \<Rightarrow> 16 word \<Rightarrow> nat \<Rightarrow> Character \<Rightarrow> 16 word \<Rightarrow> 16 word" where
  "countFormats line length' k c formatLength =
     (if k < unat length'
      then (if \<not> equalsFormat (line ! k) c
            then countFormats line length' (k + 1) (line ! k) (formatLength + 1)
            else countFormats line length' (k + 1) c formatLength)
      else formatLength)"
  by pat_completeness auto
termination
  by (relation "measure (\<lambda>(line, len, k, c, n). unat len - k)") auto

declare countFormats.simps [simp del]

text \<open>The second loop: record each format change and its position.\<close>

function recordFormats ::
  "Character list \<Rightarrow> 16 word \<Rightarrow> nat \<Rightarrow> nat \<Rightarrow> Character \<Rightarrow> 16 word \<Rightarrow> CharacterFormat list
   \<Rightarrow> CharacterFormat list" where
  "recordFormats line length' k j c formatLength formatArray =
     (if k < unat length' \<and> j < unat formatLength
      then (if \<not> equalsFormat (line ! k) c
            then recordFormats line length' (k + 1) (j + 1) (line ! k) formatLength
                   (formatArray[j := (CharacterFormat_setFormat (line ! k) (formatArray ! j))
                                       \<lparr> cf_startPos := of_nat k \<rparr>])
            else recordFormats line length' (k + 1) j c formatLength formatArray)
      else formatArray)"
  by pat_completeness auto
termination
  by (relation "measure (\<lambda>(line, len, k, j, c, n, fa). unat len - k)") auto

declare recordFormats.simps [simp del]

text \<open>
  \<^verbatim>\<open>new(blockList) CompactHistoryLine(line, blockList)\<close>: the header comes from the
  allocator (\<^verbatim>\<open>operator new\<close>), then the constructor runs. \<open>None\<close> is a failed assertion
  or a null pointer from the allocator. The member \<^verbatim>\<open>length\<close> takes \<^verbatim>\<open>line.size()\<close>
  modulo 65536; the guard, the size of the text array and the copy of the code points use
  \<^verbatim>\<open>line.size()\<close> itself.
\<close>

definition CompactHistoryLine_ctor ::
  "nat \<Rightarrow> Character list \<Rightarrow> CompactHistoryBlockList
   \<Rightarrow> (CompactHistoryLine \<times> CompactHistoryBlockList) option" where
  "CompactHistoryLine_ctor this line bList =
     (let length' = (of_nat (length line) :: 16 word)
      in if length line > 0
         then (let formatLength = countFormats line length' 1 (line ! 0) 1
               in case CompactHistoryBlockList_allocate
                         (sizeof_CharacterFormat * unat formatLength) bList of
                    None \<Rightarrow> None
                  | Some (None, bl1) \<Rightarrow> None
                  | Some (Some fa, bl1) \<Rightarrow>
                      (case CompactHistoryBlockList_allocate (sizeof_quint16 * length line) bl1 of
                         None \<Rightarrow> None
                       | Some (None, bl2) \<Rightarrow> None
                       | Some (Some tx, bl2) \<Rightarrow>
                           (let arr0 = replicate (unat formatLength) CharacterFormat_zero;
                                arr1 = arr0[0 := (CharacterFormat_setFormat (line ! 0) (arr0 ! 0))
                                                  \<lparr> cf_startPos := 0 \<rparr>];
                                arr = recordFormats line length' 1 1 (line ! 0) formatLength arr1
                            in Some (\<lparr> cl_this = this,
                                       cl_formatArray = Some (fa, arr),
                                       cl_text = Some (tx, map character line),
                                       cl_length = length',
                                       cl_formatLength = formatLength,
                                       cl_wrapped = Some False \<rparr>, bl2))))
         else Some (\<lparr> cl_this = this, cl_formatArray = None, cl_text = None,
                      cl_length = length', cl_formatLength = 0, cl_wrapped = None \<rparr>, bList))"

definition CompactHistoryLine_new ::
  "Character list \<Rightarrow> CompactHistoryBlockList
   \<Rightarrow> (CompactHistoryLine \<times> CompactHistoryBlockList) option" where
  "CompactHistoryLine_new line bList =
     (case CompactHistoryBlockList_allocate sizeof_CompactHistoryLine bList of
        None \<Rightarrow> None
      | Some (None, bl1) \<Rightarrow> None
      | Some (Some this, bl1) \<Rightarrow> CompactHistoryLine_ctor this line bl1)"

text \<open>\<^verbatim>\<open>~CompactHistoryLine\<close>, run by \<^verbatim>\<open>delete\<close>.\<close>

definition CompactHistoryLine_delete ::
  "CompactHistoryLine \<Rightarrow> CompactHistoryBlockList \<Rightarrow> CompactHistoryBlockList option" where
  "CompactHistoryLine_delete l bList =
     do {
       bl2 \<leftarrow> (if cl_length l > 0
                then do {
                  (tx, t) \<leftarrow> cl_text l;
                  bl1 \<leftarrow> CompactHistoryBlockList_deallocate tx bList;
                  (fa, f) \<leftarrow> cl_formatArray l;
                  CompactHistoryBlockList_deallocate fa bl1
                }
                else Some bList);
       CompactHistoryBlockList_deallocate (cl_this l) bl2
     }"

text \<open>The scan of \<^verbatim>\<open>getCharacter\<close> for the run that holds a column.\<close>

function findFormat :: "CharacterFormat list \<Rightarrow> 16 word \<Rightarrow> nat \<Rightarrow> nat \<Rightarrow> nat" where
  "findFormat formatArray formatLength index formatPos =
     (if formatPos + 1 < unat formatLength
         \<and> index \<ge> unat (cf_startPos (formatArray ! (formatPos + 1)))
      then findFormat formatArray formatLength index (formatPos + 1)
      else formatPos)"
  by pat_completeness auto
termination
  by (relation "measure (\<lambda>(fa, n, i, p). unat n - p)") auto

declare findFormat.simps [simp del]

text \<open>
  \<^verbatim>\<open>getCharacter(index, r)\<close> overwrites the four fields of \<open>r\<close>. \<open>None\<close> is the failed
  assertion \<^verbatim>\<open>index < length\<close>, or a read through a pointer that was never assigned.
\<close>

definition CompactHistoryLine_getCharacter ::
  "CompactHistoryLine \<Rightarrow> nat \<Rightarrow> Character \<Rightarrow> Character option" where
  "CompactHistoryLine_getCharacter l index r =
     (if \<not> index < unat (cl_length l) then None
      else case (cl_formatArray l, cl_text l) of
             (Some (fa, formatArray), Some (tx, text)) \<Rightarrow>
               (let formatPos = findFormat formatArray (cl_formatLength l) index 0
                in if index < length text \<and> formatPos < length formatArray
                   then Some (r\<lparr> character := text ! index,
                                 rendition := cf_rendition (formatArray ! formatPos),
                                 foregroundColor := cf_fgColor (formatArray ! formatPos),
                                 backgroundColor := cf_bgColor (formatArray ! formatPos) \<rparr>)
                   else None)
           | _ \<Rightarrow> None)"

text \<open>
  The loop of \<^verbatim>\<open>getCharacters\<close> over the columns \<open>i\<close>; a write past the end of the
  caller's array is \<open>None\<close>.
\<close>

function getCharactersLoop ::
  "CompactHistoryLine \<Rightarrow> Character list \<Rightarrow> nat \<Rightarrow> nat \<Rightarrow> nat \<Rightarrow> Character list option" where
  "getCharactersLoop l array size' startColumn i =
     (if i < size' + startColumn
      then (if i - startColumn < length array
            then (case CompactHistoryLine_getCharacter l i (array ! (i - startColumn)) of
                    None \<Rightarrow> None
                  | Some r \<Rightarrow>
                      getCharactersLoop l (array[i - startColumn := r]) size' startColumn (i + 1))
            else None)
      else Some array)"
  by pat_completeness auto
termination
  by (relation "measure (\<lambda>(l, array, size', startColumn, i). size' + startColumn - i)") auto

declare getCharactersLoop.simps [simp del]

definition CompactHistoryLine_getCharacters ::
  "CompactHistoryLine \<Rightarrow> Character list \<Rightarrow> int \<Rightarrow> int \<Rightarrow> Character list option" where
  "CompactHistoryLine_getCharacters l array size' startColumn =
     (if \<not> (startColumn \<ge> 0 \<and> size' \<ge> 0) then None
      else if \<not> startColumn + size' \<le> uint (cl_length l) then None
      else getCharactersLoop l array (nat size') (nat startColumn) (nat startColumn))"

subsection \<open>The compact store\<close>

text \<open>
  \<^verbatim>\<open>CompactHistoryScroll\<close>: the list of lines, the allocator and the line cap, an
  \<^verbatim>\<open>unsigned int\<close> that the code compares after a cast to \<^verbatim>\<open>int\<close> (\<open>sint\<close>).
  \<^verbatim>\<open>QList::takeAt(0)\<close> and \<^verbatim>\<open>QList::last()\<close> on an empty list are assertion failures.
\<close>

record CompactHistoryScroll =
  cs_lines :: "CompactHistoryLine list"
  cs_blockList :: CompactHistoryBlockList
  cs_maxLineCount :: "32 word"

definition CompactHistoryScroll_addCellsVector ::
  "Character list \<Rightarrow> CompactHistoryScroll \<Rightarrow> CompactHistoryScroll option" where
  "CompactHistoryScroll_addCellsVector cells s =
     do {
       (line, bl1) \<leftarrow> CompactHistoryLine_new cells (cs_blockList s);
       (lines1, bl2) \<leftarrow>
         (if int (length (cs_lines s)) > sint (cs_maxLineCount s)
          then (case cs_lines s of
                  [] \<Rightarrow> None
                | oldest # rest \<Rightarrow>
                    do { bl \<leftarrow> CompactHistoryLine_delete oldest bl1; Some (rest, bl) })
          else Some (cs_lines s, bl1));
       Some (s\<lparr> cs_lines := lines1 @ [line], cs_blockList := bl2 \<rparr>)
     }"

definition CompactHistoryScroll_addCells ::
  "Character list \<Rightarrow> int \<Rightarrow> CompactHistoryScroll \<Rightarrow> CompactHistoryScroll option" where
  "CompactHistoryScroll_addCells a count' s =
     (if 0 \<le> count' \<and> nat count' \<le> length a
      then CompactHistoryScroll_addCellsVector (take (nat count') a) s
      else None)"

definition CompactHistoryScroll_addLine ::
  "bool \<Rightarrow> CompactHistoryScroll \<Rightarrow> CompactHistoryScroll option" where
  "CompactHistoryScroll_addLine previousWrapped s =
     (if cs_lines s = [] then None
      else Some (s\<lparr> cs_lines := butlast (cs_lines s)
                                   @ [(last (cs_lines s))\<lparr> cl_wrapped := Some previousWrapped \<rparr>] \<rparr>))"

definition CompactHistoryScroll_getLines :: "CompactHistoryScroll \<Rightarrow> int" where
  "CompactHistoryScroll_getLines s = int (length (cs_lines s))"

definition CompactHistoryScroll_getLineLen :: "int \<Rightarrow> CompactHistoryScroll \<Rightarrow> int option" where
  "CompactHistoryScroll_getLineLen lineNumber s =
     (if lineNumber \<ge> 0 \<and> lineNumber < int (length (cs_lines s))
      then Some (uint (cl_length (cs_lines s ! nat lineNumber)))
      else None)"

definition CompactHistoryScroll_getCells ::
  "int \<Rightarrow> int \<Rightarrow> int \<Rightarrow> Character list \<Rightarrow> CompactHistoryScroll \<Rightarrow> Character list option" where
  "CompactHistoryScroll_getCells lineNumber startColumn count' buffer s =
     (if count' = 0 then Some buffer
      else if \<not> (0 \<le> lineNumber \<and> lineNumber < int (length (cs_lines s))) then None
      else (let line = cs_lines s ! nat lineNumber
            in if \<not> startColumn \<ge> 0 then None
               else if \<not> startColumn \<le> (uint (cl_length line) - count') mod 2 ^ 32 then None
               else CompactHistoryLine_getCharacters line buffer count' startColumn))"

function setMaxNbLines_loop ::
  "32 word \<Rightarrow> CompactHistoryLine list \<Rightarrow> CompactHistoryBlockList
   \<Rightarrow> (CompactHistoryLine list \<times> CompactHistoryBlockList) option" where
  "setMaxNbLines_loop lineCount lines bl =
     (if int (length lines) > sint lineCount
      then (case lines of
              [] \<Rightarrow> None
            | oldest # rest \<Rightarrow>
                (case CompactHistoryLine_delete oldest bl of
                   None \<Rightarrow> None
                 | Some bl' \<Rightarrow> setMaxNbLines_loop lineCount rest bl'))
      else Some (lines, bl))"
  by pat_completeness auto
termination
  by (relation "measure (\<lambda>(n, lines, bl). length lines)") auto

declare setMaxNbLines_loop.simps [simp del]

definition CompactHistoryScroll_setMaxNbLines ::
  "32 word \<Rightarrow> CompactHistoryScroll \<Rightarrow> CompactHistoryScroll option" where
  "CompactHistoryScroll_setMaxNbLines lineCount s =
     (case setMaxNbLines_loop lineCount (cs_lines s) (cs_blockList s) of
        None \<Rightarrow> None
      | Some (lines, bl) \<Rightarrow>
          Some (s\<lparr> cs_maxLineCount := lineCount, cs_lines := lines, cs_blockList := bl \<rparr>))"

definition CompactHistoryScroll_isWrappedLine :: "int \<Rightarrow> CompactHistoryScroll \<Rightarrow> bool option" where
  "CompactHistoryScroll_isWrappedLine lineNumber s =
     (if 0 \<le> lineNumber \<and> lineNumber < int (length (cs_lines s))
      then cl_wrapped (cs_lines s ! nat lineNumber)
      else None)"

text \<open>
  The constructor; the first argument is the slab length of the store's allocator (see
  the block list above).
\<close>

definition CompactHistoryScroll_new :: "nat \<Rightarrow> 32 word \<Rightarrow> CompactHistoryScroll option" where
  "CompactHistoryScroll_new slab maxLineCount =
     CompactHistoryScroll_setMaxNbLines maxLineCount
       \<lparr> cs_lines = [], cs_blockList = CompactHistoryBlockList_new slab,
         cs_maxLineCount = maxLineCount \<rparr>"

text \<open>\<^verbatim>\<open>~CompactHistoryScroll\<close>: every line is deleted.\<close>

fun deleteAll ::
  "CompactHistoryLine list \<Rightarrow> CompactHistoryBlockList \<Rightarrow> CompactHistoryBlockList option" where
  "deleteAll [] bl = Some bl"
| "deleteAll (l # ls) bl =
     (case CompactHistoryLine_delete l bl of None \<Rightarrow> None | Some bl' \<Rightarrow> deleteAll ls bl')"

definition CompactHistoryScroll_delete :: "CompactHistoryScroll \<Rightarrow> unit option" where
  "CompactHistoryScroll_delete s =
     (case deleteAll (cs_lines s) (cs_blockList s) of None \<Rightarrow> None | Some bl \<Rightarrow> Some ())"

text \<open>The cells and flags of the lines of a store, as the reading operations give them.\<close>

definition cellsOf :: "Character \<Rightarrow> CompactHistoryLine \<Rightarrow> Character list option" where
  "cellsOf r l =
     CompactHistoryLine_getCharacters l (replicate (unat (cl_length l)) r) (uint (cl_length l)) 0"

section \<open>The file-backed history store\<close>

subsection \<open>The history file\<close>

text \<open>
  \<^verbatim>\<open>HistoryFile\<close>: the length the object believes the file has, whether the file is
  mapped, the read/write balance, and the content of the temporary file behind the
  descriptor. System calls succeed (no I/O failure), except that a mapping of length zero is
  refused, which the code handles by falling back. \<open>None\<close> from an operation is a failed
  assertion, an \<^verbatim>\<open>int\<close> overflow or a read outside the file.
  Modelled from the spec: the threshold \<^verbatim>\<open>MAP_THRESHOLD\<close> of the missing History.h.
\<close>

definition MAP_THRESHOLD :: int where
  "MAP_THRESHOLD = -1000"

definition INT_MAX :: int where
  "INT_MAX = 2147483647"

record HistoryFile =
  m_length :: int
  m_fileMap :: bool
  m_readWriteBalance :: int
  fileData :: "byte list"

definition HistoryFile_new :: HistoryFile where
  "HistoryFile_new = \<lparr> m_length = 0, m_fileMap = False, m_readWriteBalance = 0, fileData = [] \<rparr>"

definition HistoryFile_map :: "HistoryFile \<Rightarrow> HistoryFile option" where
  "HistoryFile_map f =
     (if m_fileMap f then None
      else if m_length f = 0 then Some (f\<lparr> m_readWriteBalance := 0, m_fileMap := False \<rparr>)
      else Some (f\<lparr> m_fileMap := True \<rparr>))"

definition HistoryFile_unmap :: "HistoryFile \<Rightarrow> HistoryFile" where
  "HistoryFile_unmap f = f\<lparr> m_fileMap := False \<rparr>"

definition HistoryFile_isMapped :: "HistoryFile \<Rightarrow> bool" where
  "HistoryFile_isMapped f = m_fileMap f"

text \<open>A write of \<open>buf\<close> at offset \<open>off\<close> of a file (a gap is filled with zero bytes).\<close>

definition pwrite :: "byte list \<Rightarrow> nat \<Rightarrow> byte list \<Rightarrow> byte list" where
  "pwrite buf off d =
     take off d @ replicate (off - length d) 0 @ buf @ drop (off + length buf) d"

definition HistoryFile_add :: "byte list \<Rightarrow> int \<Rightarrow> HistoryFile \<Rightarrow> HistoryFile option" where
  "HistoryFile_add buffer count' f =
     (let f1 = (if m_fileMap f then HistoryFile_unmap f else f);
          f2 = f1\<lparr> m_readWriteBalance := m_readWriteBalance f1 + 1 \<rparr>
      in if \<not> (0 \<le> count' \<and> nat count' \<le> length buffer) \<or> m_length f2 < 0 then None
         else if m_length f2 + count' > INT_MAX then None
         else Some (f2\<lparr> fileData := pwrite (take (nat count') buffer) (nat (m_length f2))
                                        (fileData f2),
                         m_length := m_length f2 + count' \<rparr>))"

definition HistoryFile_get :: "int \<Rightarrow> int \<Rightarrow> HistoryFile \<Rightarrow> (byte list \<times> HistoryFile) option" where
  "HistoryFile_get size' loc f =
     do {
       let f1 = f\<lparr> m_readWriteBalance := m_readWriteBalance f - 1 \<rparr>;
       f2 \<leftarrow> (if \<not> m_fileMap f1 \<and> m_readWriteBalance f1 < MAP_THRESHOLD
               then HistoryFile_map f1 else Some f1);
       if m_fileMap f2
       then (if 0 \<le> loc \<and> 0 \<le> size' \<and> loc + size' \<le> m_length f2
             then Some (take (nat size') (drop (nat loc) (fileData f2)), f2)
             else None)
       else (if loc < 0 \<or> size' < 0 \<or> loc + size' > m_length f2 then None
             else Some (take (nat size') (drop (nat loc) (fileData f2)), f2))
     }"

definition HistoryFile_len :: "HistoryFile \<Rightarrow> int" where
  "HistoryFile_len f = m_length f"

subsection \<open>Object representations\<close>

text \<open>
  What the casts to \<^verbatim>\<open>unsigned char*\<close> read and write: an \<^verbatim>\<open>int\<close> is four bytes and a
  \<^verbatim>\<open>quint16\<close> two, least significant first; a cell is its code point, its rendition, the
  four bytes of each colour and one byte of padding, twelve bytes in all.
\<close>

definition sizeof_int :: int where
  "sizeof_int = 4"

definition sizeof_Character :: int where
  "sizeof_Character = 12"

definition int_bytes :: "int \<Rightarrow> byte list" where
  "int_bytes n =
     (let w = (word_of_int n :: 32 word)
      in [ucast w, ucast (drop_bit 8 w), ucast (drop_bit 16 w), ucast (drop_bit 24 w)])"

definition bytes_int :: "byte list \<Rightarrow> int" where
  "bytes_int bs =
     sint ((ucast (bs ! 0) :: 32 word) OR push_bit 8 (ucast (bs ! 1))
           OR push_bit 16 (ucast (bs ! 2)) OR push_bit 24 (ucast (bs ! 3)))"

definition CharacterColor_bytes :: "CharacterColor \<Rightarrow> byte list" where
  "CharacterColor_bytes c = [colorSpace c, color_u c, color_v c, color_w c]"

definition bytes_CharacterColor :: "byte list \<Rightarrow> CharacterColor" where
  "bytes_CharacterColor bs =
     \<lparr> colorSpace = bs ! 0, color_u = bs ! 1, color_v = bs ! 2, color_w = bs ! 3 \<rparr>"

definition Character_bytes :: "Character \<Rightarrow> byte list" where
  "Character_bytes c =
     [ucast (character c), ucast (drop_bit 8 (character c)), rendition c]
     @ CharacterColor_bytes (foregroundColor c)
     @ CharacterColor_bytes (backgroundColor c)
     @ [0]"

definition bytes_Character :: "byte list \<Rightarrow> Character" where
  "bytes_Character bs =
     \<lparr> character = (ucast (bs ! 0) :: 16 word) OR push_bit 8 (ucast (bs ! 1)),
       rendition = bs ! 2,
       foregroundColor = bytes_CharacterColor (take 4 (drop 3 bs)),
       backgroundColor = bytes_CharacterColor (take 4 (drop 7 bs)) \<rparr>"

definition cells_bytes :: "Character list \<Rightarrow> byte list" where
  "cells_bytes cs = concat (map Character_bytes cs)"

definition bytes_cells :: "nat \<Rightarrow> byte list \<Rightarrow> Character list" where
  "bytes_cells n bs = map (\<lambda>i. bytes_Character (take 12 (drop (12 * i) bs))) [0..<n]"

text \<open>
  \<^verbatim>\<open>int / size_t\<close>: the dividend is converted to the 64-bit unsigned type, and the
  quotient back to \<^verbatim>\<open>int\<close>.
\<close>

definition div_size_t :: "int \<Rightarrow> int \<Rightarrow> int" where
  "div_size_t a b = sint (word_of_int ((a mod 2 ^ 64) div b) :: 32 word)"

subsection \<open>The store\<close>

record HistoryScrollFile =
  hs_index :: HistoryFile
  hs_cells :: HistoryFile
  hs_lineflags :: HistoryFile

definition HistoryScrollFile_new :: HistoryScrollFile where
  "HistoryScrollFile_new =
     \<lparr> hs_index = HistoryFile_new, hs_cells = HistoryFile_new, hs_lineflags = HistoryFile_new \<rparr>"

definition HistoryScrollFile_getLines :: "HistoryScrollFile \<Rightarrow> int" where
  "HistoryScrollFile_getLines s = div_size_t (HistoryFile_len (hs_index s)) sizeof_int"

definition HistoryScrollFile_startOfLine ::
  "int \<Rightarrow> HistoryScrollFile \<Rightarrow> (int \<times> HistoryScrollFile) option" where
  "HistoryScrollFile_startOfLine lineno s =
     (if lineno \<le> 0 then Some (0, s)
      else if lineno \<le> HistoryScrollFile_getLines s
      then do {
        i1 \<leftarrow> (if \<not> HistoryFile_isMapped (hs_index s) then HistoryFile_map (hs_index s)
                else Some (hs_index s));
        (res, i2) \<leftarrow> HistoryFile_get sizeof_int ((lineno - 1) * sizeof_int) i1;
        Some (bytes_int res, s\<lparr> hs_index := i2 \<rparr>)
      }
      else Some (HistoryFile_len (hs_cells s), s))"

definition HistoryScrollFile_getLineLen ::
  "int \<Rightarrow> HistoryScrollFile \<Rightarrow> (int \<times> HistoryScrollFile) option" where
  "HistoryScrollFile_getLineLen lineno s =
     do {
       (e, s1) \<leftarrow> HistoryScrollFile_startOfLine (lineno + 1) s;
       (b, s2) \<leftarrow> HistoryScrollFile_startOfLine lineno s1;
       Some (div_size_t (e - b) sizeof_Character, s2)
     }"

definition HistoryScrollFile_isWrappedLine ::
  "int \<Rightarrow> HistoryScrollFile \<Rightarrow> (bool \<times> HistoryScrollFile) option" where
  "HistoryScrollFile_isWrappedLine lineno s =
     (if lineno \<ge> 0 \<and> lineno \<le> HistoryScrollFile_getLines s
      then do {
        (flag, lf) \<leftarrow> HistoryFile_get 1 lineno (hs_lineflags s);
        Some (flag ! 0 \<noteq> 0, s\<lparr> hs_lineflags := lf \<rparr>)
      }
      else Some (False, s))"

text \<open>
  \<^verbatim>\<open>getCells\<close> returns the caller's array \<open>res\<close> with its first \<open>count\<close> cells
  overwritten.
\<close>

definition HistoryScrollFile_getCells ::
  "int \<Rightarrow> int \<Rightarrow> int \<Rightarrow> Character list \<Rightarrow> HistoryScrollFile
   \<Rightarrow> (Character list \<times> HistoryScrollFile) option" where
  "HistoryScrollFile_getCells lineno colno count' res s =
     do {
       (start, s1) \<leftarrow> HistoryScrollFile_startOfLine lineno s;
       (bytes, c2) \<leftarrow> HistoryFile_get (count' * sizeof_Character)
                        (start + colno * sizeof_Character) (hs_cells s1);
       if nat count' \<le> length res
       then Some (bytes_cells (nat count') bytes @ drop (nat count') res, s1\<lparr> hs_cells := c2 \<rparr>)
       else None
     }"

definition HistoryScrollFile_addCells ::
  "Character list \<Rightarrow> int \<Rightarrow> HistoryScrollFile \<Rightarrow> HistoryScrollFile option" where
  "HistoryScrollFile_addCells text' count' s =
     do {
       c \<leftarrow> HistoryFile_add (cells_bytes text') (count' * sizeof_Character) (hs_cells s);
       Some (s\<lparr> hs_cells := c \<rparr>)
     }"

definition HistoryScrollFile_addLine ::
  "bool \<Rightarrow> HistoryScrollFile \<Rightarrow> HistoryScrollFile option" where
  "HistoryScrollFile_addLine previousWrapped s =
     do {
       let i0 = (if HistoryFile_isMapped (hs_index s) then HistoryFile_unmap (hs_index s)
                 else hs_index s);
       let locn = HistoryFile_len (hs_cells s);
       i1 \<leftarrow> HistoryFile_add (int_bytes locn) sizeof_int i0;
       let flags = (if previousWrapped then 1 else 0 :: byte);
       lf \<leftarrow> HistoryFile_add [flags] 1 (hs_lineflags s);
       Some (s\<lparr> hs_index := i1, hs_lineflags := lf \<rparr>)
     }"

text \<open>
  Writing a sequence of lines with the pairing contract: \<^verbatim>\<open>addCells\<close> with the exact
  count, then \<^verbatim>\<open>addLine\<close>.
\<close>

fun writeLines ::
  "(Character list \<times> bool) list \<Rightarrow> HistoryScrollFile \<Rightarrow> HistoryScrollFile option" where
  "writeLines [] s = Some s"
| "writeLines ((cells, wrapped) # rest) s =
     do {
       s1 \<leftarrow> HistoryScrollFile_addCells cells (int (length cells)) s;
       s2 \<leftarrow> HistoryScrollFile_addLine wrapped s1;
       writeLines rest s2
     }"

section \<open>History types and reconfiguration\<close>

text \<open>
  The stores behind the abstract \<^verbatim>\<open>HistoryScroll\<close> interface, by dynamic type, with the
  virtual member functions dispatching on it. \<^verbatim>\<open>HistoryScrollNone\<close> has no state.
\<close>

datatype HistoryScroll =
  ScrollNone
| ScrollFile HistoryScrollFile
| ScrollCompact CompactHistoryScroll

definition HistoryScroll_getLines :: "HistoryScroll \<Rightarrow> int" where
  "HistoryScroll_getLines h =
     (case h of
        ScrollNone \<Rightarrow> 0
      | ScrollFile f \<Rightarrow> HistoryScrollFile_getLines f
      | ScrollCompact c \<Rightarrow> CompactHistoryScroll_getLines c)"

definition HistoryScroll_getLineLen :: "int \<Rightarrow> HistoryScroll \<Rightarrow> (int \<times> HistoryScroll) option" where
  "HistoryScroll_getLineLen lineno h =
     (case h of
        ScrollNone \<Rightarrow> Some (0, h)
      | ScrollFile f \<Rightarrow>
          map_option (\<lambda>(n, f'). (n, ScrollFile f')) (HistoryScrollFile_getLineLen lineno f)
      | ScrollCompact c \<Rightarrow>
          map_option (\<lambda>n. (n, h)) (CompactHistoryScroll_getLineLen lineno c))"

definition HistoryScroll_isWrappedLine :: "int \<Rightarrow> HistoryScroll \<Rightarrow> (bool \<times> HistoryScroll) option" where
  "HistoryScroll_isWrappedLine lineno h =
     (case h of
        ScrollNone \<Rightarrow> Some (False, h)
      | ScrollFile f \<Rightarrow>
          map_option (\<lambda>(b, f'). (b, ScrollFile f')) (HistoryScrollFile_isWrappedLine lineno f)
      | ScrollCompact c \<Rightarrow>
          map_option (\<lambda>b. (b, h)) (CompactHistoryScroll_isWrappedLine lineno c))"

definition HistoryScroll_getCells ::
  "int \<Rightarrow> int \<Rightarrow> int \<Rightarrow> Character list \<Rightarrow> HistoryScroll
   \<Rightarrow> (Character list \<times> HistoryScroll) option" where
  "HistoryScroll_getCells lineno colno count' res h =
     (case h of
        ScrollNone \<Rightarrow> Some (res, h)
      | ScrollFile f \<Rightarrow>
          map_option (\<lambda>(r, f'). (r, ScrollFile f'))
            (HistoryScrollFile_getCells lineno colno count' res f)
      | ScrollCompact c \<Rightarrow>
          map_option (\<lambda>r. (r, h)) (CompactHistoryScroll_getCells lineno colno count' res c))"

text \<open>
  The free store of \<^verbatim>\<open>HistoryScroll\<close> objects. A pointer is the identity of an object:
  \<^verbatim>\<open>new\<close> makes an object that is none of the earlier ones, \<^verbatim>\<open>delete\<close> runs the
  destructor and removes the object. The null pointer is \<open>None\<close>.
\<close>

record Heap =
  objects :: "nat \<Rightarrow> HistoryScroll option"
  nextObject :: nat

definition Heap_new :: "HistoryScroll \<Rightarrow> Heap \<Rightarrow> nat \<times> Heap" where
  "Heap_new obj h =
     (nextObject h,
      h\<lparr> objects := (objects h)(nextObject h \<mapsto> obj), nextObject := nextObject h + 1 \<rparr>)"

definition Heap_delete :: "nat option \<Rightarrow> Heap \<Rightarrow> Heap option" where
  "Heap_delete p h =
     (case p of
        None \<Rightarrow> Some h
      | Some a \<Rightarrow>
          (case objects h a of
             None \<Rightarrow> None
           | Some (ScrollCompact c) \<Rightarrow>
               (case CompactHistoryScroll_delete c of
                  None \<Rightarrow> None
                | Some u \<Rightarrow> Some (h\<lparr> objects := (objects h)(a := None) \<rparr>))
           | Some other \<Rightarrow> Some (h\<lparr> objects := (objects h)(a := None) \<rparr>)))"


text \<open>
  \<^verbatim>\<open>CompactHistoryType::scroll\<close>, for a type of \<open>m_nbLines\<close> lines (the first argument is
  the slab length a new store gets). A pointer to no object is \<open>None\<close>.
\<close>

definition CompactHistoryType_scroll ::
  "nat \<Rightarrow> 32 word \<Rightarrow> nat option \<Rightarrow> Heap \<Rightarrow> (nat \<times> Heap) option" where
  "CompactHistoryType_scroll slab m_nbLines old h =
     (case old of
        Some a \<Rightarrow>
          (case objects h a of
             None \<Rightarrow> None
           | Some (ScrollCompact oldBuffer) \<Rightarrow>
               do {
                 c \<leftarrow> CompactHistoryScroll_setMaxNbLines m_nbLines oldBuffer;
                 Some (a, h\<lparr> objects := (objects h)(a \<mapsto> ScrollCompact c) \<rparr>)
               }
           | Some other \<Rightarrow>
               do {
                 h1 \<leftarrow> Heap_delete old h;
                 c \<leftarrow> CompactHistoryScroll_new slab m_nbLines;
                 Some (Heap_new (ScrollCompact c) h1)
               })
      | None \<Rightarrow>
          do {
            c \<leftarrow> CompactHistoryScroll_new slab m_nbLines;
            Some (Heap_new (ScrollCompact c) h)
          })"

text \<open>
  Modelled from the spec: \<^verbatim>\<open>HistoryTypeFile::scroll\<close> tests its argument with
  \<^verbatim>\<open>dynamic_cast<HistoryFile *>\<close>. The class declarations are in the missing History.h;
  by the spec a file-backed store owns its three files as members, so no store object is a
  \<^verbatim>\<open>HistoryFile\<close> and the cast gives the null pointer for every store.
\<close>

definition isHistoryFile :: "HistoryScroll \<Rightarrow> bool" where
  "isHistoryFile h = (case h of ScrollNone \<Rightarrow> False | ScrollFile f \<Rightarrow> False | ScrollCompact c \<Rightarrow> False)"

definition LINE_SIZE :: int where
  "LINE_SIZE = 1024"

text \<open>
  The copy loop of \<^verbatim>\<open>HistoryTypeFile::scroll\<close>, with the old store, the stack buffer
  \<open>line\<close> and the new store threaded through.
\<close>

function copyLines ::
  "int \<Rightarrow> int \<Rightarrow> HistoryScroll \<Rightarrow> Character list \<Rightarrow> HistoryScrollFile
   \<Rightarrow> (HistoryScroll \<times> HistoryScrollFile) option" where
  "copyLines i lines old line newScroll =
     (if i < lines
      then (case HistoryScroll_getLineLen i old of
              None \<Rightarrow> None
            | Some (size', old1) \<Rightarrow>
                (let buffer = (if size' > LINE_SIZE then replicate (nat size') Character_default
                               else line)
                 in case HistoryScroll_getCells i 0 size' buffer old1 of
                      None \<Rightarrow> None
                    | Some (filled, old2) \<Rightarrow>
                        (case HistoryScrollFile_addCells filled size' newScroll of
                           None \<Rightarrow> None
                         | Some new1 \<Rightarrow>
                             (case HistoryScroll_isWrappedLine i old2 of
                                None \<Rightarrow> None
                              | Some (w, old3) \<Rightarrow>
                                  (case HistoryScrollFile_addLine w new1 of
                                     None \<Rightarrow> None
                                   | Some new2 \<Rightarrow>
                                       copyLines (i + 1) lines old3
                                         (if size' > LINE_SIZE then line else filled) new2)))))
      else Some (old, newScroll))"
  by pat_completeness auto
termination
  by (relation "measure (\<lambda>(i, lines, old, line, newScroll). nat (lines - i))") auto

declare copyLines.simps [simp del]

definition HistoryTypeFile_scroll :: "nat option \<Rightarrow> Heap \<Rightarrow> (nat \<times> Heap) option" where
  "HistoryTypeFile_scroll old h =
     (case old of
        None \<Rightarrow>
          Some (Heap_new (ScrollFile HistoryScrollFile_new) h)
      | Some a \<Rightarrow>
          (case objects h a of
             None \<Rightarrow> None
           | Some oldScroll \<Rightarrow>
               if isHistoryFile oldScroll then Some (a, h)
               else (let (p, h1) = Heap_new (ScrollFile HistoryScrollFile_new) h;
                         line = replicate (nat LINE_SIZE) Character_default;
                         lines = HistoryScroll_getLines oldScroll
                     in case copyLines 0 lines oldScroll line HistoryScrollFile_new of
                          None \<Rightarrow> None
                        | Some (old', newScroll) \<Rightarrow>
                            (case Heap_delete old
                                    (h1\<lparr> objects := (objects h1)(a \<mapsto> old',
                                                         p \<mapsto> ScrollFile newScroll) \<rparr>) of
                               None \<Rightarrow> None
                             | Some h2 \<Rightarrow> Some (p, h2)))))"

subsection \<open>Example cells, stores and heaps\<close>

definition cell :: "16 word \<Rightarrow> Character" where
  "cell ch = Character_default\<lparr> character := ch \<rparr>"

definition bold :: "16 word \<Rightarrow> Character" where
  "bold ch = Character_default\<lparr> character := ch, rendition := 1 \<rparr>"

text \<open>Commit one line to a compact store: \<^verbatim>\<open>addCells\<close>, then \<^verbatim>\<open>addLine\<close>.\<close>

definition commitLine ::
  "Character list \<Rightarrow> bool \<Rightarrow> CompactHistoryScroll \<Rightarrow> CompactHistoryScroll option" where
  "commitLine cells wrapped s =
     do {
       s1 \<leftarrow> CompactHistoryScroll_addCells cells (int (length cells)) s;
       CompactHistoryScroll_addLine wrapped s1
     }"

fun commitLines ::
  "(Character list \<times> bool) list \<Rightarrow> CompactHistoryScroll \<Rightarrow> CompactHistoryScroll option" where
  "commitLines [] s = Some s"
| "commitLines ((cells, wrapped) # rest) s =
     (case commitLine cells wrapped s of None \<Rightarrow> None | Some s1 \<Rightarrow> commitLines rest s1)"


text \<open>A file-backed store that holds the one line "foo", wrapped.\<close>

definition fooFile :: "HistoryScrollFile option" where
  "fooFile = writeLines [([cell 102, cell 111, cell 111], True)] HistoryScrollFile_new"

definition heapOf :: "HistoryScroll \<Rightarrow> Heap" where
  "heapOf obj = \<lparr> objects = (\<lambda>a. None)(0 \<mapsto> obj), nextObject = 1 \<rparr>"

subsection \<open>Auxiliary notions for the format runs\<close>

text \<open>
  A format run has the format of a cell; column \<open>i\<close> lies in run \<open>m\<close> of the first
  \<open>j\<close> runs; and the invariant of the recording loop: the first \<open>j\<close> runs start at 0,
  start at increasing columns below \<open>k\<close>, and give every column below \<open>k\<close> the format
  of its cell.
\<close>

definition sameFormat :: "CharacterFormat \<Rightarrow> Character \<Rightarrow> bool" where
  "sameFormat f c \<longleftrightarrow>
     cf_rendition f = rendition c \<and> cf_fgColor f = foregroundColor c \<and>
     cf_bgColor f = backgroundColor c"

definition inRun :: "CharacterFormat list \<Rightarrow> nat \<Rightarrow> nat \<Rightarrow> nat \<Rightarrow> bool" where
  "inRun fa j m i \<longleftrightarrow>
     m < j \<and> unat (cf_startPos (fa ! m)) \<le> i \<and>
     (m + 1 < j \<longrightarrow> i < unat (cf_startPos (fa ! (m + 1))))"

definition runsOk :: "Character list \<Rightarrow> nat \<Rightarrow> nat \<Rightarrow> CharacterFormat list \<Rightarrow> bool" where
  "runsOk line k j fa \<longleftrightarrow>
     0 < j \<and> j \<le> length fa \<and> cf_startPos (fa ! 0) = 0 \<and>
     (\<forall>m m'. m < m' \<and> m' < j \<longrightarrow> unat (cf_startPos (fa ! m)) < unat (cf_startPos (fa ! m'))) \<and>
     (\<forall>m<j. unat (cf_startPos (fa ! m)) < k) \<and>
     (\<forall>i m. i < k \<and> inRun fa j m i \<longrightarrow> sameFormat (fa ! m) (line ! i))"

definition exampleLine :: "Character list" where
  "exampleLine = [cell 97, bold 98, bold 99, cell 100]"

text \<open>The empty compact store of capacity 3 with slabs of 4096 bytes.\<close>

definition emptyStore3 :: CompactHistoryScroll where
  "emptyStore3 = \<lparr> cs_lines = [], cs_blockList = CompactHistoryBlockList_new 4096,
                    cs_maxLineCount = 3 \<rparr>"


subsection \<open>Content of a file-backed store\<close>

text \<open>
  The number of cells in a sequence of lines; two stores with the same file contents and
  lengths (they may differ in what is mapped and in the read/write balances); and the files
  of a store that holds exactly the given lines: the cells back to back, the end offset of
  every line, and one flag byte per line.
\<close>

definition cellCount :: "(Character list \<times> bool) list \<Rightarrow> nat" where
  "cellCount ls = sum_list (map (\<lambda>(cs, w). length cs) ls)"

definition sameContent :: "HistoryScrollFile \<Rightarrow> HistoryScrollFile \<Rightarrow> bool" where
  "sameContent t s \<longleftrightarrow>
     fileData (hs_cells t) = fileData (hs_cells s) \<and>
     m_length (hs_cells t) = m_length (hs_cells s) \<and>
     fileData (hs_index t) = fileData (hs_index s) \<and>
     m_length (hs_index t) = m_length (hs_index s) \<and>
     fileData (hs_lineflags t) = fileData (hs_lineflags s) \<and>
     m_length (hs_lineflags t) = m_length (hs_lineflags s)"

definition stores :: "HistoryScrollFile \<Rightarrow> (Character list \<times> bool) list \<Rightarrow> bool" where
  "stores s ls \<longleftrightarrow>
     fileData (hs_cells s) = concat (map (\<lambda>(cs, w). cells_bytes cs) ls) \<and>
     m_length (hs_cells s) = 12 * int (cellCount ls) \<and>
     fileData (hs_index s)
       = concat (map (\<lambda>k. int_bytes (12 * int (cellCount (take (Suc k) ls)))) [0..<length ls]) \<and>
     m_length (hs_index s) = 4 * int (length ls) \<and>
     fileData (hs_lineflags s) = map (\<lambda>(cs, w). if w then 1 else 0) ls \<and>
     m_length (hs_lineflags s) = int (length ls)"

text \<open>The lines "foo" (wrapped) and "bar" (not wrapped).\<close>

definition fooBar :: "(Character list \<times> bool) list" where
  "fooBar = [([cell 102, cell 111, cell 111], True), ([cell 98, cell 97, cell 114], False)]"

subsection \<open>Well-formed allocators and stores\<close>

text \<open>
  The invariant of the allocator against the multiset \<open>M\<close> of the pointers it has handed
  out and not taken back. Every block is a slab of the allocator's slab length that lies
  below the address of the next slab, its bump pointer is inside it, and its count is the
  number of pointers of \<open>M\<close> in its address range; the blocks are in increasing address
  order without overlap; and every pointer of \<open>M\<close> lies in some block.
\<close>

definition blockOk :: "CompactHistoryBlockList \<Rightarrow> nat multiset \<Rightarrow> CompactHistoryBlock \<Rightarrow> bool" where
  "blockOk bl M b \<longleftrightarrow>
     blockStart b \<le> tail b \<and> tail b \<le> blockStart b + blockLength b \<and>
     blockLength b = slabLength bl \<and> blockStart b + blockLength b \<le> nextSlab bl \<and>
     allocCount b = int (size (filter_mset (CompactHistoryBlock_contains b) M))"

definition allocOk :: "CompactHistoryBlockList \<Rightarrow> nat multiset \<Rightarrow> bool" where
  "allocOk bl M \<longleftrightarrow>
     (\<forall>j<length (bl_list bl). blockOk bl M (bl_list bl ! j)) \<and>
     (\<forall>j<length (bl_list bl). \<forall>i<j.
        blockStart (bl_list bl ! i) + blockLength (bl_list bl ! i) \<le> blockStart (bl_list bl ! j)) \<and>
     (\<forall>p \<in># M. \<exists>j<length (bl_list bl). CompactHistoryBlock_contains (bl_list bl ! j) p)"

text \<open>
  The pointers a line holds (what its destructor gives back), a line whose arrays are
  allocated when it has cells, and a store whose allocator is well formed against the
  pointers of its lines.
\<close>

definition ptrsOf :: "CompactHistoryLine \<Rightarrow> nat multiset" where
  "ptrsOf l =
     (if cl_length l > 0
      then (case cl_text l of None \<Rightarrow> {#} | Some (tx, t) \<Rightarrow> {#tx#})
           + (case cl_formatArray l of None \<Rightarrow> {#} | Some (fa, f) \<Rightarrow> {#fa#})
      else {#})
     + {#cl_this l#}"

definition lineOk :: "CompactHistoryLine \<Rightarrow> bool" where
  "lineOk l \<longleftrightarrow> (cl_length l > 0 \<longrightarrow> cl_text l \<noteq> None \<and> cl_formatArray l \<noteq> None)"

definition storeOk :: "CompactHistoryScroll \<Rightarrow> bool" where
  "storeOk s \<longleftrightarrow>
     allocOk (cs_blockList s) (sum_list (map ptrsOf (cs_lines s))) \<and>
     (\<forall>l \<in> set (cs_lines s). lineOk l)"

text \<open>
  A line fits an allocator when its length fits the 16-bit length field and its header and
  its arrays each fit one slab.
\<close>

definition fits :: "Character list \<Rightarrow> CompactHistoryBlockList \<Rightarrow> bool" where
  "fits cells bl \<longleftrightarrow>
     length cells < 65536 \<and>
     sizeof_CompactHistoryLine \<le> slabLength bl \<and>
     sizeof_CharacterFormat * length cells \<le> slabLength bl"

section \<open>Properties of the view window\<close>

lemma emit_fields [simp]:
  "m_screen (emit sig w) = m_screen w"
  "m_windowLines (emit sig w) = m_windowLines w"
  "m_currentLine (emit sig w) = m_currentLine w"
  "m_bufferNeedsUpdate (emit sig w) = m_bufferNeedsUpdate w"
  "m_trackOutput (emit sig w) = m_trackOutput w"
  "m_scrollCount (emit sig w) = m_scrollCount w"
  "emitted (emit sig w) = emitted w @ [sig]"
  by (simp_all add: emit_def)

text \<open>
  C7. The anchor a caller observes, \<^verbatim>\<open>currentLine()\<close>, lies between 0 and
  \<open>max 0 (totalLines - windowLines)\<close> in every window state, whatever the stored anchor and
  whatever the Screen reports; in particular after \<^verbatim>\<open>scrollTo\<close> with any argument, after
  \<^verbatim>\<open>notifyOutputChanged\<close> in either tracking mode and after \<^verbatim>\<open>updateCurrentLine\<close>, each
  measured against the line counts of the state it leaves.
\<close>

theorem currentLine_clamped:
  "(0 \<le> ScreenWindow_currentLine w \<and>
    ScreenWindow_currentLine w \<le> max 0 (ScreenWindow_lineCount w - ScreenWindow_windowLines w)) \<and>
   (0 \<le> ScreenWindow_currentLine (ScreenWindow_scrollTo x w) \<and>
    ScreenWindow_currentLine (ScreenWindow_scrollTo x w)
      \<le> max 0 (ScreenWindow_lineCount (ScreenWindow_scrollTo x w)
                - ScreenWindow_windowLines (ScreenWindow_scrollTo x w))) \<and>
   (0 \<le> ScreenWindow_currentLine (ScreenWindow_notifyOutputChanged w) \<and>
    ScreenWindow_currentLine (ScreenWindow_notifyOutputChanged w)
      \<le> max 0 (ScreenWindow_lineCount (ScreenWindow_notifyOutputChanged w)
                - ScreenWindow_windowLines (ScreenWindow_notifyOutputChanged w))) \<and>
   (0 \<le> ScreenWindow_currentLine (ScreenWindow_updateCurrentLine w) \<and>
    ScreenWindow_currentLine (ScreenWindow_updateCurrentLine w)
      \<le> max 0 (ScreenWindow_lineCount (ScreenWindow_updateCurrentLine w)
                - ScreenWindow_windowLines (ScreenWindow_updateCurrentLine w)))"
proof -
  have any: "0 \<le> ScreenWindow_currentLine v \<and>
      ScreenWindow_currentLine v \<le> max 0 (ScreenWindow_lineCount v - ScreenWindow_windowLines v)"
    for v
    by (simp add: ScreenWindow_currentLine_def qBound_def)
  show ?thesis
    using any [of w] any [of "ScreenWindow_scrollTo x w"]
      any [of "ScreenWindow_notifyOutputChanged w"] any [of "ScreenWindow_updateCurrentLine w"]
    by blast
qed

text \<open>
  C8. While the window tracks output, the anchor observed after \<^verbatim>\<open>notifyOutputChanged\<close> is
  \<open>max 0 (histLines - (windowLines - screenLines))\<close>, for every history size, screen height
  and window height.
\<close>

theorem notifyOutputChanged_tracking:
  assumes "m_trackOutput w"
  shows "ScreenWindow_currentLine (ScreenWindow_notifyOutputChanged w) =
         max 0 (Screen_getHistLines (m_screen w)
                - (ScreenWindow_windowLines w - Screen_getLines (m_screen w)))"
  using assms
  by (simp add: ScreenWindow_notifyOutputChanged_def ScreenWindow_currentLine_def
      ScreenWindow_lineCount_def ScreenWindow_windowLines_def qBound_def Let_def)

lemma exampleWindow_simps:
  "m_windowLines (exampleWindow h) = h"
  "m_screen (exampleWindow h) = exampleScreen"
  "m_trackOutput (exampleWindow h)"
  by (simp_all add: exampleWindow_def ScreenWindow_new_def)

text \<open>
  Witness for C8: a window of 10 lines that tracks output over a Screen with 100 history
  lines and 24 screen lines is anchored at \<open>100 - (10 - 24) = 114\<close> after the notification.
\<close>

theorem notifyOutputChanged_tracking_witness:
  "m_trackOutput (exampleWindow 10) \<and>
   ScreenWindow_currentLine (ScreenWindow_notifyOutputChanged (exampleWindow 10)) = 114"
  using notifyOutputChanged_tracking [of "exampleWindow 10"]
  by (simp add: ScreenWindow_windowLines_def exampleWindow_simps exampleScreen_def)

text \<open>
  C10. For a window of positive height, \<^verbatim>\<open>getLineProperties\<close> returns exactly
  \<open>windowLines\<close> entries: the entries the Screen supplies for the visible range, cut after
  \<open>windowLines\<close> of them when there are more and padded with default-constructed entries
  when there are fewer.
\<close>

theorem getLineProperties_size:
  assumes "0 < ScreenWindow_windowLines w"
  shows "length (ScreenWindow_getLineProperties w) = nat (ScreenWindow_windowLines w) \<and>
         ScreenWindow_getLineProperties w =
           take (nat (ScreenWindow_windowLines w))
             (Screen_getLineProperties (m_screen w) (ScreenWindow_currentLine w)
                (ScreenWindow_endWindowLine w))
           @ replicate
               (nat (ScreenWindow_windowLines w)
                - length (Screen_getLineProperties (m_screen w) (ScreenWindow_currentLine w)
                            (ScreenWindow_endWindowLine w)))
               LineProperty_default"
  using assms
  by (auto simp add: ScreenWindow_getLineProperties_def QVector_resize_def Let_def)

text \<open>
  Witness for C10: the example Screen supplies five entries; a window of 3 lines gets three
  of them, a window of 7 lines gets the five and two default entries.
\<close>

theorem getLineProperties_size_witness:
  "0 < ScreenWindow_windowLines (exampleWindow 3) \<and>
   length (ScreenWindow_getLineProperties (exampleWindow 3)) = 3 \<and>
   0 < ScreenWindow_windowLines (exampleWindow 7) \<and>
   ScreenWindow_getLineProperties (exampleWindow 7) =
     replicate 5 \<lparr> lp_wrapped = False, lp_prompt_start = True, lp_other = 0 \<rparr>
     @ replicate 2 LineProperty_default"
  using getLineProperties_size [of "exampleWindow 3"] getLineProperties_size [of "exampleWindow 7"]
  by (simp add: ScreenWindow_windowLines_def exampleWindow_simps exampleScreen_def)

text \<open>
  C3. What the code does on a selection change. \<^verbatim>\<open>getImage\<close> leaves the cache clean, and
  \<^verbatim>\<open>clearSelection\<close> on that window leaves it clean as well: it emits
  \<^verbatim>\<open>selectionChanged\<close> but does not mark the image dirty. The three other selection
  operations do mark it dirty, whatever the state before.
\<close>

theorem clearSelection_keeps_cache:
  "\<not> m_bufferNeedsUpdate (snd (ScreenWindow_getImage w)) \<and>
   \<not> m_bufferNeedsUpdate (ScreenWindow_clearSelection (snd (ScreenWindow_getImage w))) \<and>
   emitted (ScreenWindow_clearSelection v) = emitted v @ [SelectionChanged] \<and>
   m_bufferNeedsUpdate (ScreenWindow_setSelectionStart c l m v) \<and>
   m_bufferNeedsUpdate (ScreenWindow_setSelectionEnd c l m v) \<and>
   m_bufferNeedsUpdate (ScreenWindow_setSelectionByLineRange a b v)"
  by (simp add: ScreenWindow_getImage_def ScreenWindow_clearSelection_def
      ScreenWindow_setSelectionStart_def ScreenWindow_setSelectionEnd_def
      ScreenWindow_setSelectionByLineRange_def Let_def)

section \<open>Properties of the compact store\<close>

lemmas compact_defs =
  CompactHistoryScroll_new_def CompactHistoryScroll_setMaxNbLines_def setMaxNbLines_loop.simps
  CompactHistoryBlockList_new_def commitLine_def
  CompactHistoryScroll_addCells_def CompactHistoryScroll_addCellsVector_def
  CompactHistoryScroll_addLine_def CompactHistoryLine_new_def CompactHistoryLine_ctor_def
  CompactHistoryBlockList_allocate_def CompactHistoryBlock_allocate_def
  CompactHistoryBlock_remaining_def CompactHistoryBlock_new_def
  sizeof_CompactHistoryLine_def sizeof_CharacterFormat_def sizeof_quint16_def
  countFormats.simps recordFormats.simps CharacterFormat_setFormat_def CharacterFormat_zero_def
  CompactHistoryScroll_getLines_def cellsOf_def CompactHistoryLine_getCharacters_def
  getCharactersLoop.simps CompactHistoryLine_getCharacter_def findFormat.simps
  cell_def bold_def Character_default_def equalsFormat_def
  CompactHistoryLine_delete_def CompactHistoryBlockList_deallocate_def findBlock.simps
  CompactHistoryBlock_deallocate_def CompactHistoryBlock_contains_def
  CompactHistoryBlock_isInUse_def

subsection \<open>Format runs: encoding then decoding\<close>

lemma countFormats_acc: "countFormats line len k c n = n + countFormats line len k c 0"
proof (induction "unat len - k" arbitrary: k c n)
  case 0
  then have "\<not> k < unat len" by simp
  then show ?case by (simp add: countFormats.simps[of line len k])
next
  case (Suc d)
  then have k: "k < unat len" and d: "d = unat len - (k + 1)" by simp_all
  note ih = Suc.hyps(1)[OF d]
  show ?case
  proof (cases "equalsFormat (line ! k) c")
    case True
    then show ?thesis using k ih[of c n] by (simp add: countFormats.simps[of line len k])
  next
    case False
    then show ?thesis using k ih[of "line ! k" "n + 1"] ih[of "line ! k" 1]
      by (simp add: countFormats.simps[of line len k] add.assoc)
  qed
qed

lemma unat_Suc_word16: "unat x < 65535 \<Longrightarrow> unat (1 + x :: 16 word) = 1 + unat x"
  by (simp add: unat_word_ariths)

lemma unat_word16_bound: "unat (x :: 16 word) < 65536"
proof -
  have "unat x < 2 ^ LENGTH(16)" by (rule unsigned_less)
  then show ?thesis by simp
qed

lemma countFormats_bound: "unat (countFormats line len k c 0) \<le> unat len - k"
proof (induction "unat len - k" arbitrary: k c)
  case 0
  then have "\<not> k < unat len" by simp
  then show ?case by (simp add: countFormats.simps[of line len k])
next
  case (Suc d)
  then have k: "k < unat len" and d: "d = unat len - (k + 1)" by simp_all
  note ih = Suc.hyps(1)[OF d]
  show ?case
  proof (cases "equalsFormat (line ! k) c")
    case True
    then have "countFormats line len k c 0 = countFormats line len (k + 1) c 0"
      using k by (simp add: countFormats.simps[of line len k])
    then show ?thesis using ih[of c] by simp
  next
    case False
    then have "countFormats line len k c 0 = countFormats line len (k + 1) (line ! k) 1"
      using k by (simp add: countFormats.simps[of line len k])
    also have "\<dots> = 1 + countFormats line len (k + 1) (line ! k) 0"
      by (rule countFormats_acc)
    finally have e: "countFormats line len k c 0 = 1 + countFormats line len (k + 1) (line ! k) 0" .
    have "unat (countFormats line len (k + 1) (line ! k) 0) < 65535"
      using ih[of "line ! k"] k unat_word16_bound[of len] by simp
    then show ?thesis unfolding e using ih[of "line ! k"] k by (simp add: unat_Suc_word16)
  qed
qed

lemma countFormats_change:
  assumes k: "k < unat len" and ne: "\<not> equalsFormat (line ! k) c"
  shows "unat (countFormats line len k c 0)
         = 1 + unat (countFormats line len (k + 1) (line ! k) 0)"
proof -
  have "countFormats line len k c 0 = countFormats line len (k + 1) (line ! k) 1"
    using k ne by (simp add: countFormats.simps[of line len k])
  also have "\<dots> = 1 + countFormats line len (k + 1) (line ! k) 0"
    by (rule countFormats_acc)
  finally have e: "countFormats line len k c 0 = 1 + countFormats line len (k + 1) (line ! k) 0" .
  have "unat (countFormats line len (k + 1) (line ! k) 0) < 65535"
    using countFormats_bound[of line len "k + 1" "line ! k"] k unat_word16_bound[of len] by simp
  then show ?thesis unfolding e by (simp add: unat_Suc_word16)
qed

lemma countFormats_first:
  assumes "0 < unat len"
  shows "unat (countFormats line len 1 c 1) = 1 + unat (countFormats line len 1 c 0)"
proof -
  have e: "countFormats line len 1 c 1 = 1 + countFormats line len 1 c 0"
    by (rule countFormats_acc)
  have "unat (countFormats line len 1 c 0) < 65535"
    using countFormats_bound[of line len 1 c] assms unat_word16_bound[of len] by simp
  then show ?thesis unfolding e by (simp add: unat_Suc_word16)
qed

lemma countFormats_zero:
  "countFormats line len k c 0 = 0 \<Longrightarrow> k \<le> i \<Longrightarrow> i < unat len \<Longrightarrow> equalsFormat (line ! i) c"
proof (induction "unat len - k" arbitrary: k)
  case 0
  then show ?case by simp
next
  case (Suc d)
  then have k: "k < unat len" and d: "d = unat len - (k + 1)" by simp_all
  have eq: "equalsFormat (line ! k) c"
  proof (rule ccontr)
    assume "\<not> equalsFormat (line ! k) c"
    then have "unat (countFormats line len k c 0)
               = 1 + unat (countFormats line len (k + 1) (line ! k) 0)"
      by (rule countFormats_change[OF k])
    then show False using Suc.prems(1) by simp
  qed
  then have z: "countFormats line len (k + 1) c 0 = 0"
    using k Suc.prems(1) by (simp add: countFormats.simps[of line len k])
  show ?case
  proof (cases "i = k")
    case True
    then show ?thesis using eq by simp
  next
    case False
    then have "k + 1 \<le> i" using Suc.prems(2) by simp
    then show ?thesis using Suc.hyps(1)[OF d z] Suc.prems(3) by simp
  qed
qed

lemma runsOk_rest:
  assumes ok: "runsOk line k j fa"
    and rest: "\<forall>i. k \<le> i \<and> i < n \<longrightarrow> sameFormat (fa ! (j - 1)) (line ! i)"
    and kn: "k \<le> n"
  shows "runsOk line n j fa"
proof -
  have mono: "\<And>m m'. m < m' \<Longrightarrow> m' < j \<Longrightarrow> unat (cf_startPos (fa ! m)) < unat (cf_startPos (fa ! m'))"
    and bound: "\<And>m. m < j \<Longrightarrow> unat (cf_startPos (fa ! m)) < k"
    and old: "\<And>i m. i < k \<Longrightarrow> inRun fa j m i \<Longrightarrow> sameFormat (fa ! m) (line ! i)"
    using ok by (auto simp add: runsOk_def)
  have new: "sameFormat (fa ! m) (line ! i)" if i: "i < n" and r: "inRun fa j m i" for i m
  proof (cases "i < k")
    case True
    then show ?thesis using old r by blast
  next
    case False
    have "m = j - 1"
    proof (rule ccontr)
      assume "m \<noteq> j - 1"
      then have "m + 1 < j" using r by (auto simp add: inRun_def)
      then have "i < unat (cf_startPos (fa ! (m + 1)))" "unat (cf_startPos (fa ! (m + 1))) < k"
        using r bound by (auto simp add: inRun_def)
      then show False using False by simp
    qed
    then show ?thesis using rest i False by simp
  qed
  show ?thesis
    unfolding runsOk_def
    using ok kn new bound by (fastforce simp add: runsOk_def)
qed

lemma runsOk_new:
  assumes ok: "runsOk line k j fa"
    and j: "j < length fa"
    and F: "sameFormat F (line ! k)" "unat (cf_startPos F) = k"
  shows "runsOk line (k + 1) (j + 1) (fa[j := F])"
proof -
  have j0: "0 < j" and z: "cf_startPos (fa ! 0) = 0"
    and mono: "\<And>m m'. m < m' \<Longrightarrow> m' < j \<Longrightarrow> unat (cf_startPos (fa ! m)) < unat (cf_startPos (fa ! m'))"
    and bound: "\<And>m. m < j \<Longrightarrow> unat (cf_startPos (fa ! m)) < k"
    and old: "\<And>i m. i < k \<Longrightarrow> inRun fa j m i \<Longrightarrow> sameFormat (fa ! m) (line ! i)"
    using ok by (auto simp add: runsOk_def)
  let ?fa = "fa[j := F]"
  have nth: "\<And>m. m < j \<Longrightarrow> ?fa ! m = fa ! m" and nthj: "?fa ! j = F"
    using j by simp_all
  have mono': "unat (cf_startPos (?fa ! m)) < unat (cf_startPos (?fa ! m'))"
    if "m < m'" "m' < j + 1" for m m'
  proof (cases "m' = j")
    case True
    then show ?thesis using that nth nthj bound F by simp
  next
    case False
    then show ?thesis using that nth mono by simp
  qed
  have bound': "unat (cf_startPos (?fa ! m)) < k + 1" if "m < j + 1" for m
  proof (cases "m = j")
    case True
    then show ?thesis using nthj F by simp
  next
    case False
    then have "m < j" using that by simp
    then show ?thesis using nth bound[of m] by simp
  qed
  have new: "sameFormat (?fa ! m) (line ! i)" if i: "i < k + 1" and r: "inRun ?fa (j + 1) m i" for i m
  proof (cases "m = j")
    case True
    then have "k \<le> i" using r nthj F by (simp add: inRun_def)
    then have "i = k" using i by simp
    then show ?thesis using True nthj F by simp
  next
    case False
    then have m: "m < j" using r by (simp add: inRun_def)
    have ik: "i < k"
    proof (cases "m + 1 = j")
      case True
      then show ?thesis using r nthj F by (simp add: inRun_def)
    next
      case False
      then have "m + 1 < j" using m by simp
      then have "i < unat (cf_startPos (fa ! (m + 1)))" "unat (cf_startPos (fa ! (m + 1))) < k"
        using r nth[of "m + 1"] bound[of "m + 1"] by (simp_all add: inRun_def)
      then show ?thesis by simp
    qed
    have "inRun fa j m i"
      using r m nth[of m] nth[of "m + 1"] by (auto simp add: inRun_def)
    then show ?thesis using old ik nth m by simp
  qed
  show ?thesis
    unfolding runsOk_def
    using j z j0 nth mono' bound' new by auto
qed

lemma recordFormats_ok:
  "runsOk line k j fa \<Longrightarrow> k \<le> unat len \<Longrightarrow> sameFormat (fa ! (j - 1)) c \<Longrightarrow>
   j + unat (countFormats line len k c 0) = length fa \<Longrightarrow> unat fl = length fa \<Longrightarrow>
   runsOk line (unat len) (length fa) (recordFormats line len k j c fl fa) \<and>
   length (recordFormats line len k j c fl fa) = length fa"
proof (induction "unat len - k" arbitrary: k j c fa)
  case 0
  then have k: "k = unat len" and nk: "\<not> k < unat len" by simp_all
  have "countFormats line len k c 0 = 0" using nk by (subst countFormats.simps) simp
  then have jl: "j = length fa" using "0.prems"(4) by simp
  have "recordFormats line len k j c fl fa = fa"
    using nk by (subst recordFormats.simps) simp
  then show ?case using "0.prems"(1) k jl by simp
next
  case (Suc d)
  then have k: "k < unat len" and d: "d = unat len - (k + 1)" by simp_all
  have jle: "j \<le> length fa" and j0: "0 < j" using Suc.prems(1) by (simp_all add: runsOk_def)
  note fl = Suc.prems(5)
  show ?case
  proof (cases "j < length fa")
    case False
    then have jl: "j = length fa" using jle by simp
    then have "unat (countFormats line len k c 0) = 0" using Suc.prems(4) by simp
    then have z: "countFormats line len k c 0 = 0" by (simp add: unat_eq_zero)
    have "\<forall>i. k \<le> i \<and> i < unat len \<longrightarrow> sameFormat (fa ! (j - 1)) (line ! i)"
      using countFormats_zero[OF z] Suc.prems(3) by (auto simp add: sameFormat_def equalsFormat_def)
    then have "runsOk line (unat len) j fa"
      using runsOk_rest[OF Suc.prems(1)] k by simp
    then show ?thesis using jl fl by (simp add: recordFormats.simps[of line len k])
  next
    case True
    note j = this
    show ?thesis
    proof (cases "equalsFormat (line ! k) c")
      case True
      have s: "sameFormat (fa ! (j - 1)) (line ! k)"
        using True Suc.prems(3) by (simp add: sameFormat_def equalsFormat_def)
      have "\<forall>i. k \<le> i \<and> i < k + 1 \<longrightarrow> sameFormat (fa ! (j - 1)) (line ! i)"
      proof (intro allI impI)
        fix i assume "k \<le> i \<and> i < k + 1"
        then have "i = k" by simp
        then show "sameFormat (fa ! (j - 1)) (line ! i)" using s by simp
      qed
      then have ok: "runsOk line (k + 1) j fa"
        using runsOk_rest[OF Suc.prems(1)] by simp
      have cnt: "j + unat (countFormats line len (k + 1) c 0) = length fa"
        using Suc.prems(4) True k by (simp add: countFormats.simps[of line len k])
      have "recordFormats line len k j c fl fa = recordFormats line len (k + 1) j c fl fa"
        using k j True fl by (simp add: recordFormats.simps[of line len k])
      then show ?thesis
        using Suc.hyps(1)[OF d ok _ Suc.prems(3) cnt fl] k by simp
    next
      case False
      let ?F = "(CharacterFormat_setFormat (line ! k) (fa ! j))\<lparr> cf_startPos := of_nat k \<rparr>"
      let ?fa = "fa[j := ?F]"
      have kk: "unat (of_nat k :: 16 word) = k"
        using k unat_word16_bound[of len] by (simp add: unat_of_nat)
      have F: "sameFormat ?F (line ! k)" "unat (cf_startPos ?F) = k"
        using kk by (simp_all add: sameFormat_def CharacterFormat_setFormat_def)
      have ok: "runsOk line (k + 1) (j + 1) ?fa"
        by (rule runsOk_new[OF Suc.prems(1) j F])
      have s: "sameFormat (?fa ! (j + 1 - 1)) (line ! k)"
        using j F by simp
      have cnt: "j + 1 + unat (countFormats line len (k + 1) (line ! k) 0) = length ?fa"
        using Suc.prems(4) countFormats_change[OF k False] by simp
      have fl': "unat fl = length ?fa" using fl by simp
      have "recordFormats line len k j c fl fa
            = recordFormats line len (k + 1) (j + 1) (line ! k) fl ?fa"
        using k j False fl by (simp add: recordFormats.simps[of line len k])
      then show ?thesis
        using Suc.hyps(1)[OF d ok _ s cnt fl'] k by simp
    qed
  qed
qed

lemma findFormat_ok:
  "fp < unat fl \<Longrightarrow> unat (cf_startPos (fa ! fp)) \<le> i \<Longrightarrow>
   inRun fa (unat fl) (findFormat fa fl i fp) i"
proof (induction "unat fl - fp" arbitrary: fp)
  case 0
  then show ?case by simp
next
  case (Suc d)
  show ?case
  proof (cases "fp + 1 < unat fl \<and> i \<ge> unat (cf_startPos (fa ! (fp + 1)))")
    case True
    then have "findFormat fa fl i fp = findFormat fa fl i (fp + 1)"
      by (subst findFormat.simps) simp
    moreover have "d = unat fl - (fp + 1)" using Suc.hyps(2) by simp
    ultimately show ?thesis using Suc.hyps(1)[of "fp + 1"] True by simp
  next
    case False
    then have "findFormat fa fl i fp = fp"
      by (subst findFormat.simps) auto
    then show ?thesis using False Suc.prems by (auto simp add: inRun_def)
  qed
qed

lemma ctor_getCharacter:
  assumes c: "CompactHistoryLine_ctor this line bl = Some (l, bl')"
    and i: "i < length line"
    and lt: "length line < 65536"
  shows "CompactHistoryLine_getCharacter (l\<lparr> cl_wrapped := w \<rparr>) i r = Some (line ! i)"
proof -
  have ne: "0 < length line" using i by (cases line) simp_all
  define len where "len = (of_nat (length line) :: 16 word)"
  have ul: "unat len = length line" using lt by (simp add: len_def unat_of_nat)
  define fl where "fl = countFormats line len 1 (line ! 0) 1"
  define arr0 where "arr0 = replicate (unat fl) CharacterFormat_zero"
  define arr1 where
    "arr1 = arr0[0 := (CharacterFormat_setFormat (line ! 0) (arr0 ! 0))\<lparr> cf_startPos := 0 \<rparr>]"
  define arr where "arr = recordFormats line len 1 1 (line ! 0) fl arr1"
  have fl1: "unat fl = 1 + unat (countFormats line len 1 (line ! 0) 0)"
    unfolding fl_def using ne ul by (intro countFormats_first) simp
  have len1: "length arr1 = unat fl" by (simp add: arr1_def arr0_def)
  have a10: "arr1 ! 0 = (CharacterFormat_setFormat (line ! 0) (arr0 ! 0))\<lparr> cf_startPos := 0 \<rparr>"
    using fl1 by (simp add: arr1_def arr0_def)
  have s0: "sameFormat (arr1 ! 0) (line ! 0)" and p0: "cf_startPos (arr1 ! 0) = 0"
    unfolding a10 by (simp_all add: sameFormat_def CharacterFormat_setFormat_def)
  have ok1: "runsOk line 1 1 arr1"
    unfolding runsOk_def using s0 p0 len1 fl1 by (auto simp add: inRun_def)
  have "runsOk line (unat len) (length arr1) (recordFormats line len 1 1 (line ! 0) fl arr1)
        \<and> length (recordFormats line len 1 1 (line ! 0) fl arr1) = length arr1"
  proof (rule recordFormats_ok[OF ok1])
    show "1 \<le> unat len" unfolding ul using ne by arith
    show "sameFormat (arr1 ! (1 - 1)) (line ! 0)" using s0 by simp
    show "1 + unat (countFormats line len 1 (line ! 0) 0) = length arr1" using fl1 len1 by simp
    show "unat fl = length arr1" using len1 by simp
  qed
  then have ok: "runsOk line (length line) (unat fl) arr" and len: "length arr = unat fl"
    by (simp_all add: len1 arr_def ul)
  obtain fa tx where l: "l = \<lparr> cl_this = this, cl_formatArray = Some (fa, arr),
      cl_text = Some (tx, map character line), cl_length = len,
      cl_formatLength = fl, cl_wrapped = Some False \<rparr>"
    using c ne
    by (auto simp add: CompactHistoryLine_ctor_def Let_def fl_def arr_def arr1_def arr0_def len_def
        split: option.splits)
  have fl0: "0 < unat fl" using fl1 by simp
  have z: "unat (cf_startPos (arr ! 0)) = 0" using ok by (simp add: runsOk_def)
  have run: "inRun arr (unat fl) (findFormat arr fl i 0) i"
    using findFormat_ok[OF fl0, of arr i] z by simp
  then have same: "sameFormat (arr ! findFormat arr fl i 0) (line ! i)"
    using ok i by (auto simp add: runsOk_def)
  have lt': "findFormat arr fl i 0 < length arr" using run len by (simp add: inRun_def)
  have nn: "line \<noteq> []" using i by auto
  show ?thesis
    using i lt' same nn ul
    by (simp add: l CompactHistoryLine_getCharacter_def Let_def sameFormat_def)
qed

lemma getCharactersLoop_ok:
  assumes g: "\<And>j r. j < n \<Longrightarrow> CompactHistoryLine_getCharacter l j r = Some (line ! j)"
  shows "i \<le> n \<Longrightarrow> n \<le> length array \<Longrightarrow>
         \<exists>res. getCharactersLoop l array n 0 i = Some res \<and> length res = length array \<and>
               (\<forall>j<length array. res ! j = (if i \<le> j \<and> j < n then line ! j else array ! j))"
proof (induction "n - i" arbitrary: i array)
  case 0
  then have "\<not> i < n" by simp
  then have "getCharactersLoop l array n 0 i = Some array"
    by (subst getCharactersLoop.simps) simp
  then show ?case using \<open>\<not> i < n\<close> by auto
next
  case (Suc d)
  then have i: "i < n" and d: "d = n - (i + 1)" by simp_all
  let ?a = "array[i := line ! i]"
  have step: "getCharactersLoop l array n 0 i = getCharactersLoop l ?a n 0 (i + 1)"
    using i Suc.prems(2) g[OF i] by (subst getCharactersLoop.simps) simp
  have "\<exists>res. getCharactersLoop l ?a n 0 (i + 1) = Some res \<and> length res = length ?a \<and>
      (\<forall>j<length ?a. res ! j = (if i + 1 \<le> j \<and> j < n then line ! j else ?a ! j))"
    using i Suc.prems(2) by (intro Suc.hyps(1)[OF d, of ?a]) simp_all
  then obtain res where r: "getCharactersLoop l ?a n 0 (i + 1) = Some res" "length res = length array"
      "\<And>j. j < length array \<Longrightarrow> res ! j = (if i + 1 \<le> j \<and> j < n then line ! j else ?a ! j)"
    by auto
  have "res ! j = (if i \<le> j \<and> j < n then line ! j else array ! j)" if "j < length array" for j
  proof (cases "j = i")
    case True
    then show ?thesis using r(3)[OF that] i that by simp
  next
    case False
    then show ?thesis using r(3)[OF that] by auto
  qed
  then show ?case using step r(1,2) by simp
qed

lemma getCharacters_whole:
  assumes g: "\<And>j r. j < length line \<Longrightarrow> CompactHistoryLine_getCharacter l j r = Some (line ! j)"
    and len: "unat (cl_length l) = length line"
    and buf: "length line \<le> length buffer"
  shows "CompactHistoryLine_getCharacters l buffer (int (length line)) 0
         = Some (line @ drop (length line) buffer)"
proof -
  obtain res where r: "getCharactersLoop l buffer (length line) 0 0 = Some res"
      "length res = length buffer"
      "\<forall>j<length buffer. res ! j = (if j < length line then line ! j else buffer ! j)"
    using getCharactersLoop_ok[of "length line" l line 0 buffer] g buf by auto
  have "res = line @ drop (length line) buffer"
  proof (rule nth_equalityI)
    show "length res = length (line @ drop (length line) buffer)" using r(2) buf by simp
  next
    fix j assume "j < length res"
    then have "j < length buffer" using r(2) by simp
    then show "res ! j = (line @ drop (length line) buffer) ! j"
      using r(3) buf by (simp add: nth_append)
  qed
  moreover have "uint (cl_length l) = int (length line)" using len by (simp add: uint_nat)
  ultimately show ?thesis
    using r(1) by (simp add: CompactHistoryLine_getCharacters_def)
qed

lemma ctor_length:
  "CompactHistoryLine_ctor this line bl = Some (l, bl') \<Longrightarrow> cl_length l = of_nat (length line)"
  by (auto simp add: CompactHistoryLine_ctor_def Let_def split: if_splits option.splits)

lemma new_getCharacters:
  assumes n: "CompactHistoryLine_new line bl = Some (l, bl')"
    and buf: "length line \<le> length buffer"
    and lt: "length line < 65536"
  shows "CompactHistoryLine_getCharacters (l\<lparr> cl_wrapped := w \<rparr>) buffer (int (length line)) 0
         = Some (line @ drop (length line) buffer)"
proof -
  obtain this bl1 where c: "CompactHistoryLine_ctor this line bl1 = Some (l, bl')"
    using n by (auto simp add: CompactHistoryLine_new_def split: option.splits)
  show ?thesis
  proof (rule getCharacters_whole)
    show "CompactHistoryLine_getCharacter (l\<lparr> cl_wrapped := w \<rparr>) j r = Some (line ! j)"
      if "j < length line" for j r
      using ctor_getCharacter[OF c that lt] .
    show "unat (cl_length (l\<lparr> cl_wrapped := w \<rparr>)) = length line"
      using ctor_length[OF c] lt by (simp add: unat_of_nat)
    show "length line \<le> length buffer" by (rule buf)
  qed
qed

lemma addCellsVector_lines:
  assumes "CompactHistoryScroll_addCellsVector cells s = Some s1"
  shows "cs_lines s1 \<noteq> [] \<and>
         (\<exists>bl'. CompactHistoryLine_new cells (cs_blockList s) = Some (last (cs_lines s1), bl'))"
  using assms
  by (auto simp add: CompactHistoryScroll_addCellsVector_def bind_eq_Some_conv
      split: if_splits list.splits)

subsection \<open>Counting the live allocations\<close>

lemma sum_list_butlast_snoc:
  "xs \<noteq> [] \<Longrightarrow> sum_list (map f (butlast xs @ [y])) = sum_list (map f xs) - f (last xs) + (f y :: int)"
  by (induction xs rule: rev_induct) simp_all

lemma sum_list_remove_nth:
  "i < length xs \<Longrightarrow>
   sum_list (map f (take i xs @ drop (i + 1) xs)) = sum_list (map f xs) - (f (xs ! i) :: int)"
proof -
  assume i: "i < length xs"
  have "sum_list (map f xs) = sum_list (map f (take i xs @ xs ! i # drop (i + 1) xs))"
    using id_take_nth_drop[OF i] by simp
  then show ?thesis by simp
qed

lemma sum_list_update_nth:
  "i < length xs \<Longrightarrow>
   sum_list (map f (xs[i := y])) = sum_list (map f xs) - (f (xs ! i) :: int) + f y"
proof -
  assume i: "i < length xs"
  have "sum_list (map f xs) = sum_list (map f (take i xs @ xs ! i # drop (i + 1) xs))"
    using id_take_nth_drop[OF i] by simp
  moreover have "xs[i := y] = take i xs @ y # drop (i + 1) xs"
    using upd_conv_take_nth_drop[OF i] by simp
  ultimately show ?thesis by simp
qed

lemma findBlock_Some:
  "findBlock list ptr i = Some k \<Longrightarrow> k < length list \<and> CompactHistoryBlock_contains (list ! k) ptr"
proof (induction "length list - i" arbitrary: i)
  case 0
  then show ?case by (subst (asm) findBlock.simps) simp
next
  case (Suc d)
  then have i: "i < length list" and d: "d = length list - (i + 1)" by simp_all
  show ?case
  proof (cases "CompactHistoryBlock_contains (list ! i) ptr")
    case True
    then have "findBlock list ptr i = Some i" using i by (subst findBlock.simps) simp
    then show ?thesis using Suc.prems True i by simp
  next
    case False
    then have "findBlock list ptr i = findBlock list ptr (i + 1)"
      using i by (subst findBlock.simps) simp
    then show ?thesis using Suc.hyps(1)[OF d] Suc.prems by simp
  qed
qed

lemma allocate_live:
  assumes "CompactHistoryBlockList_allocate sz bl = Some (Some p, bl')"
  shows "liveAllocations bl' = liveAllocations bl + 1"
proof -
  define bl1 where "bl1 = (if bl_list bl = [] \<or> CompactHistoryBlock_remaining (last (bl_list bl)) < sz
                 then bl\<lparr> bl_list := bl_list bl
                                       @ [CompactHistoryBlock_new (slabLength bl) (nextSlab bl)],
                         nextSlab := nextSlab bl + slabLength bl \<rparr>
                 else bl)"
  have ne: "bl_list bl1 \<noteq> []" by (simp add: bl1_def)
  have l1: "liveAllocations bl1 = liveAllocations bl"
    by (simp add: bl1_def liveAllocations_def CompactHistoryBlock_new_def)
  obtain block where b: "CompactHistoryBlock_allocate sz (last (bl_list bl1)) = Some (Some p, block)"
    and bl': "bl' = bl1\<lparr> bl_list := butlast (bl_list bl1) @ [block] \<rparr>"
    using assms
    by (auto simp add: CompactHistoryBlockList_allocate_def bl1_def[symmetric] Let_def
        split: option.splits)
  have c: "allocCount block = allocCount (last (bl_list bl1)) + 1"
    using b by (auto simp add: CompactHistoryBlock_allocate_def split: if_splits)
  show ?thesis
    using sum_list_butlast_snoc[OF ne, of allocCount block] c l1
    by (simp add: bl' liveAllocations_def)
qed

lemma deallocate_live:
  assumes "CompactHistoryBlockList_deallocate p bl = Some bl'"
  shows "liveAllocations bl' = liveAllocations bl - 1"
proof -
  obtain i block where f: "findBlock (bl_list bl) p 0 = Some i"
    and d: "CompactHistoryBlock_deallocate (bl_list bl ! i) = Some block"
    and bl': "bl' = (if \<not> CompactHistoryBlock_isInUse block
                    then bl\<lparr> bl_list := take i (bl_list bl) @ drop (i + 1) (bl_list bl) \<rparr>
                    else bl\<lparr> bl_list := (bl_list bl)[i := block] \<rparr>)"
    using assms
    by (auto simp add: CompactHistoryBlockList_deallocate_def split: if_splits option.splits)
  have i: "i < length (bl_list bl)" using findBlock_Some[OF f] by simp
  have c: "allocCount block = allocCount (bl_list bl ! i) - 1"
    using d by (auto simp add: CompactHistoryBlock_deallocate_def Let_def split: if_splits)
  show ?thesis
  proof (cases "CompactHistoryBlock_isInUse block")
    case True
    then show ?thesis
      using sum_list_update_nth[OF i, of allocCount block] c
      by (simp add: bl' liveAllocations_def)
  next
    case False
    then have "allocCount (bl_list bl ! i) = 1"
      using c by (simp add: CompactHistoryBlock_isInUse_def)
    then show ?thesis
      using False sum_list_remove_nth[OF i, of allocCount]
      by (simp add: bl' liveAllocations_def)
  qed
qed

lemma ctor_live:
  assumes "CompactHistoryLine_ctor this line bl = Some (l, bl')"
  shows "liveAllocations bl' = liveAllocations bl + (if line = [] then 0 else 2)"
proof (cases "line = []")
  case True
  then show ?thesis using assms by (simp add: CompactHistoryLine_ctor_def)
next
  case False
  then obtain fa bl1 tx where
    a1: "CompactHistoryBlockList_allocate
           (sizeof_CharacterFormat
            * unat (countFormats line (of_nat (length line)) 1 (line ! 0) 1)) bl
         = Some (Some fa, bl1)"
    and a2: "CompactHistoryBlockList_allocate (sizeof_quint16 * length line) bl1 = Some (Some tx, bl')"
    using assms
    by (auto simp add: CompactHistoryLine_ctor_def Let_def split: option.splits)
  show ?thesis using allocate_live[OF a1] allocate_live[OF a2] False by simp
qed

subsection \<open>The allocator and the store keep their invariants\<close>

lemma allocOk_alt:
  "allocOk bl M \<longleftrightarrow>
     (\<forall>j<length (bl_list bl). blockOk bl M (bl_list bl ! j)) \<and>
     (\<forall>i j. i < j \<and> j < length (bl_list bl) \<longrightarrow>
        blockStart (bl_list bl ! i) + blockLength (bl_list bl ! i) \<le> blockStart (bl_list bl ! j)) \<and>
     (\<forall>p. p \<in># M \<longrightarrow> (\<exists>j<length (bl_list bl). CompactHistoryBlock_contains (bl_list bl ! j) p))"
  unfolding allocOk_def by blast

lemma findBlock_finds:
  "i0 \<le> j \<Longrightarrow> j < length list \<Longrightarrow> CompactHistoryBlock_contains (list ! j) p \<Longrightarrow>
   \<exists>i. findBlock list p i0 = Some i"
proof (induction "length list - i0" arbitrary: i0)
  case 0
  then show ?case by simp
next
  case (Suc d)
  then have i: "i0 < length list" and d: "d = length list - (i0 + 1)" by simp_all
  show ?case
  proof (cases "CompactHistoryBlock_contains (list ! i0) p")
    case True
    then show ?thesis using i by (subst findBlock.simps) simp
  next
    case False
    then have ne: "i0 \<noteq> j" using Suc.prems(3) by auto
    have "findBlock list p i0 = findBlock list p (i0 + 1)"
      using False i by (subst findBlock.simps) simp
    then show ?thesis using Suc.hyps(1)[OF d] Suc.prems ne by simp
  qed
qed

lemma nth_remove:
  "i < length xs \<Longrightarrow> k < length xs - 1 \<Longrightarrow>
   (take i xs @ drop (i + 1) xs) ! k = xs ! (if k < i then k else k + 1)"
  by (simp add: nth_append min_def)

lemma allocOk_unique:
  assumes ok: "allocOk bl M"
    and i: "i < length (bl_list bl)" and k: "k < length (bl_list bl)"
    and ci: "CompactHistoryBlock_contains (bl_list bl ! i) p"
    and ck: "CompactHistoryBlock_contains (bl_list bl ! k) p"
  shows "k = i"
proof (rule ccontr)
  assume "k \<noteq> i"
  then consider "k < i" | "i < k" by linarith
  then show False
  proof cases
    case 1
    then have "blockStart (bl_list bl ! k) + blockLength (bl_list bl ! k) \<le> blockStart (bl_list bl ! i)"
      using ok i by (simp add: allocOk_alt)
    then show False using ci ck by (simp add: CompactHistoryBlock_contains_def)
  next
    case 2
    then have "blockStart (bl_list bl ! i) + blockLength (bl_list bl ! i) \<le> blockStart (bl_list bl ! k)"
      using ok k by (simp add: allocOk_alt)
    then show False using ci ck by (simp add: CompactHistoryBlock_contains_def)
  qed
qed

lemma deallocate_ok:
  assumes ok: "allocOk bl (add_mset p M)"
  shows "\<exists>bl'. CompactHistoryBlockList_deallocate p bl = Some bl' \<and> allocOk bl' M \<and>
               slabLength bl' = slabLength bl"
proof -
  let ?xs = "bl_list bl"
  have "p \<in># add_mset p M" by simp
  then obtain j where j: "j < length ?xs" "CompactHistoryBlock_contains (?xs ! j) p"
    using ok unfolding allocOk_alt by blast
  then have ne: "?xs \<noteq> []" by auto
  obtain i where f: "findBlock ?xs p 0 = Some i"
    using findBlock_finds[of 0 j ?xs p] j by auto
  have i: "i < length ?xs" and ci: "CompactHistoryBlock_contains (?xs ! i) p"
    using findBlock_Some[OF f] by simp_all
  have uniq: "\<not> CompactHistoryBlock_contains (?xs ! k) p" if "k < length ?xs" "k \<noteq> i" for k
    using allocOk_unique[OF ok i that(1) ci] that(2) by blast
  have bok: "\<And>k. k < length ?xs \<Longrightarrow> blockOk bl (add_mset p M) (?xs ! k)"
    and sorted: "\<And>a b. a < b \<Longrightarrow> b < length ?xs \<Longrightarrow>
        blockStart (?xs ! a) + blockLength (?xs ! a) \<le> blockStart (?xs ! b)"
    and home: "\<And>q. q \<in># M \<Longrightarrow> \<exists>k<length ?xs. CompactHistoryBlock_contains (?xs ! k) q"
    using ok unfolding allocOk_alt by (blast, blast, simp)
  let ?b = "?xs ! i"
  let ?b' = "?b\<lparr> allocCount := allocCount ?b - 1 \<rparr>"
  have cnt: "allocCount ?b = 1 + int (size (filter_mset (CompactHistoryBlock_contains ?b) M))"
    using bok[OF i] ci by (simp add: blockOk_def)
  then have d: "CompactHistoryBlock_deallocate ?b = Some ?b'"
    by (simp add: CompactHistoryBlock_deallocate_def Let_def)
  have other: "blockOk bl' M (?xs ! k)"
    if "k < length ?xs" "k \<noteq> i" "slabLength bl' = slabLength bl" "nextSlab bl' = nextSlab bl"
    for k bl'
    using bok[OF that(1)] uniq[OF that(1,2)] that(3,4) by (simp add: blockOk_def)
  have cont': "CompactHistoryBlock_contains ?b' = CompactHistoryBlock_contains ?b"
    by (rule ext) (simp add: CompactHistoryBlock_contains_def)
  show ?thesis
  proof (cases "CompactHistoryBlock_isInUse ?b'")
    case True
    let ?bl' = "bl\<lparr> bl_list := ?xs[i := ?b'] \<rparr>"
    have r: "CompactHistoryBlockList_deallocate p bl = Some ?bl'"
      using ne f d True by (simp add: CompactHistoryBlockList_deallocate_def)
    have "blockStart ?b \<le> tail ?b \<and> tail ?b \<le> blockStart ?b + blockLength ?b \<and>
          blockLength ?b = slabLength bl \<and> blockStart ?b + blockLength ?b \<le> nextSlab bl"
      using bok[OF i] by (simp add: blockOk_def)
    then have b'ok: "blockOk ?bl' M ?b'"
      unfolding blockOk_def cont' by (simp add: cnt)
    have "allocOk ?bl' M"
      unfolding allocOk_alt
    proof (intro conjI allI impI)
      fix k assume "k < length (bl_list ?bl')"
      then have k: "k < length ?xs" by simp
      show "blockOk ?bl' M (bl_list ?bl' ! k)"
      proof (cases "k = i")
        case True
        then show ?thesis using b'ok i by simp
      next
        case False
        then show ?thesis using other[OF k False, of ?bl'] by simp
      qed
    next
      fix a b assume "a < b \<and> b < length (bl_list ?bl')"
      then have ab: "a < b" "b < length ?xs" by simp_all
      then have "a < length ?xs" by simp
      then show "blockStart (bl_list ?bl' ! a) + blockLength (bl_list ?bl' ! a)
                 \<le> blockStart (bl_list ?bl' ! b)"
        using sorted[OF ab] ab i by (auto simp add: nth_list_update)
    next
      fix q assume "q \<in># M"
      then obtain k where k: "k < length ?xs" "CompactHistoryBlock_contains (?xs ! k) q"
        using home by blast
      then have "CompactHistoryBlock_contains (bl_list ?bl' ! k) q"
        by (cases "k = i") (simp_all add: cont')
      then show "\<exists>k<length (bl_list ?bl'). CompactHistoryBlock_contains (bl_list ?bl' ! k) q"
        using k(1) by auto
    qed
    then show ?thesis using r by simp
  next
    case False
    let ?ys = "take i ?xs @ drop (i + 1) ?xs"
    let ?bl' = "bl\<lparr> bl_list := ?ys \<rparr>"
    have r: "CompactHistoryBlockList_deallocate p bl = Some ?bl'"
      using ne f d False by (simp add: CompactHistoryBlockList_deallocate_def)
    have len: "length ?ys = length ?xs - 1" using i by simp
    have nth: "\<And>k. k < length ?xs - 1 \<Longrightarrow> ?ys ! k = ?xs ! (if k < i then k else k + 1)"
      using nth_remove[OF i] by simp
    have empty: "\<not> CompactHistoryBlock_contains ?b q" if "q \<in># M" for q
    proof
      assume "CompactHistoryBlock_contains ?b q"
      then have "q \<in># filter_mset (CompactHistoryBlock_contains ?b) M" using that by simp
      then have "filter_mset (CompactHistoryBlock_contains ?b) M \<noteq> {#}" by auto
      then have "size (filter_mset (CompactHistoryBlock_contains ?b) M) \<noteq> 0" by simp
      then show False using False cnt by (simp add: CompactHistoryBlock_isInUse_def)
    qed
    have "allocOk ?bl' M"
      unfolding allocOk_alt
    proof (intro conjI allI impI)
      fix k assume "k < length (bl_list ?bl')"
      then have k: "k < length ?xs - 1" using len by simp
      let ?k = "if k < i then k else k + 1"
      have "?k < length ?xs" "?k \<noteq> i" using k by auto
      then have "blockOk ?bl' M (?xs ! ?k)" using other[of ?k ?bl'] by simp
      then show "blockOk ?bl' M (bl_list ?bl' ! k)" using nth[OF k] by simp
    next
      fix a b assume "a < b \<and> b < length (bl_list ?bl')"
      then have ab: "a < b" "b < length ?xs - 1" using len by simp_all
      let ?a = "if a < i then a else a + 1"
      let ?b2 = "if b < i then b else b + 1"
      have "?a < ?b2" "?b2 < length ?xs" using ab by auto
      then have "blockStart (?xs ! ?a) + blockLength (?xs ! ?a) \<le> blockStart (?xs ! ?b2)"
        by (rule sorted)
      moreover have "?ys ! a = ?xs ! ?a" "?ys ! b = ?xs ! ?b2"
        using nth[of a] nth[of b] ab by simp_all
      ultimately show "blockStart (bl_list ?bl' ! a) + blockLength (bl_list ?bl' ! a)
                 \<le> blockStart (bl_list ?bl' ! b)"
        by simp
    next
      fix q assume q: "q \<in># M"
      then obtain k where k: "k < length ?xs" "CompactHistoryBlock_contains (?xs ! k) q"
        using home by blast
      then have ki: "k \<noteq> i" using empty[OF q] by auto
      let ?k = "if k < i then k else k - 1"
      have "?k < length ?xs - 1" using k(1) ki i by auto
      moreover have "?ys ! ?k = ?xs ! k" using nth[of ?k] k(1) ki i by auto
      ultimately show "\<exists>k<length (bl_list ?bl'). CompactHistoryBlock_contains (bl_list ?bl' ! k) q"
        using k(2) len by (intro exI[of _ ?k]) simp
    qed
    then show ?thesis using r by simp
  qed
qed

lemma allocate_ok:
  assumes ok: "allocOk bl M" and sz: "0 < sz" "sz \<le> slabLength bl"
  shows "\<exists>p bl'. CompactHistoryBlockList_allocate sz bl = Some (Some p, bl') \<and>
                 allocOk bl' (add_mset p M) \<and> slabLength bl' = slabLength bl"
proof -
  let ?xs = "bl_list bl"
  let ?n = "length ?xs"
  have bok: "\<And>k. k < ?n \<Longrightarrow> blockOk bl M (?xs ! k)"
    and sorted: "\<And>a b. a < b \<Longrightarrow> b < ?n \<Longrightarrow>
        blockStart (?xs ! a) + blockLength (?xs ! a) \<le> blockStart (?xs ! b)"
    and home: "\<And>q. q \<in># M \<Longrightarrow> \<exists>k<?n. CompactHistoryBlock_contains (?xs ! k) q"
    using ok unfolding allocOk_alt by (blast, blast, simp)
  show ?thesis
  proof (cases "?xs = [] \<or> CompactHistoryBlock_remaining (last ?xs) < sz")
    case True
    let ?p = "nextSlab bl"
    let ?new' = "\<lparr> blockLength = slabLength bl, tail = ?p + sz, blockStart = ?p, allocCount = 1 \<rparr>"
    let ?bl' = "bl\<lparr> bl_list := ?xs @ [?new'], nextSlab := ?p + slabLength bl \<rparr>"
    have r: "CompactHistoryBlockList_allocate sz bl = Some (Some ?p, ?bl')"
      using True sz
      by (simp add: CompactHistoryBlockList_allocate_def CompactHistoryBlock_allocate_def
          CompactHistoryBlock_new_def Let_def)
    have below: "q < ?p" if q: "q \<in># M" for q
    proof -
      obtain k where k: "k < ?n" "CompactHistoryBlock_contains (?xs ! k) q"
        using home[OF q] by blast
      have "blockStart (?xs ! k) + blockLength (?xs ! k) \<le> ?p"
        using bok[OF k(1)] by (simp add: blockOk_def)
      then show ?thesis using k(2) by (simp add: CompactHistoryBlock_contains_def)
    qed
    have "\<not> CompactHistoryBlock_contains ?new' q" if q: "q \<in># M" for q
      using below[OF q] by (simp add: CompactHistoryBlock_contains_def)
    then have none: "filter_mset (CompactHistoryBlock_contains ?new') M = {#}"
      by simp
    have pin: "CompactHistoryBlock_contains ?new' ?p"
      using sz by (simp add: CompactHistoryBlock_contains_def)
    have old: "blockOk ?bl' (add_mset ?p M) (?xs ! k)" if k: "k < ?n" for k
    proof -
      have o: "blockOk bl M (?xs ! k)" by (rule bok[OF k])
      then have "\<not> CompactHistoryBlock_contains (?xs ! k) ?p"
        by (simp add: blockOk_def CompactHistoryBlock_contains_def)
      then show ?thesis using o by (simp add: blockOk_def)
    qed
    have "allocOk ?bl' (add_mset ?p M)"
      unfolding allocOk_alt
    proof (intro conjI allI impI)
      fix k assume "k < length (bl_list ?bl')"
      then have "k < ?n \<or> k = ?n" by auto
      then show "blockOk ?bl' (add_mset ?p M) (bl_list ?bl' ! k)"
      proof
        assume "k < ?n"
        then show ?thesis using old by (simp add: nth_append)
      next
        assume "k = ?n"
        then show ?thesis using sz pin none by (simp add: blockOk_def)
      qed
    next
      fix a b assume ab: "a < b \<and> b < length (bl_list ?bl')"
      then have "b < ?n \<or> b = ?n" by auto
      then show "blockStart (bl_list ?bl' ! a) + blockLength (bl_list ?bl' ! a)
                 \<le> blockStart (bl_list ?bl' ! b)"
      proof
        assume "b < ?n"
        then show ?thesis using ab sorted[of a b] by (simp add: nth_append)
      next
        assume b: "b = ?n"
        then have a: "a < ?n" using ab by simp
        have "blockStart (?xs ! a) + blockLength (?xs ! a) \<le> ?p"
          using bok[OF a] by (simp add: blockOk_def)
        then show ?thesis using a b by (simp add: nth_append)
      qed
    next
      fix q assume "q \<in># add_mset ?p M"
      then have "q = ?p \<or> q \<in># M" by auto
      then show "\<exists>k<length (bl_list ?bl'). CompactHistoryBlock_contains (bl_list ?bl' ! k) q"
      proof
        assume "q = ?p"
        then show ?thesis using pin by (intro exI[of _ ?n]) simp
      next
        assume "q \<in># M"
        then obtain k where k: "k < ?n" "CompactHistoryBlock_contains (?xs ! k) q"
          using home by blast
        then show ?thesis by (intro exI[of _ k]) (simp add: nth_append)
      qed
    qed
    then show ?thesis using r by simp
  next
    case False
    then have ne: "?xs \<noteq> []" and room: "sz \<le> CompactHistoryBlock_remaining (last ?xs)"
      by simp_all
    let ?m = "?n - 1"
    have m: "?m < ?n" using ne by simp
    let ?b = "?xs ! ?m"
    have lastb: "last ?xs = ?b" using ne by (simp add: last_conv_nth)
    have bo: "blockStart ?b \<le> tail ?b" "tail ?b \<le> blockStart ?b + blockLength ?b"
      "blockLength ?b = slabLength bl" "blockStart ?b + blockLength ?b \<le> nextSlab bl"
      and cnt: "allocCount ?b = int (size (filter_mset (CompactHistoryBlock_contains ?b) M))"
      using bok[OF m] by (simp_all add: blockOk_def)
    let ?p = "tail ?b"
    have fit: "?p + sz \<le> blockStart ?b + blockLength ?b"
      using room bo(1,2) unfolding lastb CompactHistoryBlock_remaining_def by linarith
    let ?b' = "?b\<lparr> tail := ?p + sz, allocCount := allocCount ?b + 1 \<rparr>"
    let ?ys = "butlast ?xs @ [?b']"
    let ?bl' = "bl\<lparr> bl_list := ?ys \<rparr>"
    have "CompactHistoryBlock_allocate sz ?b = Some (Some ?p, ?b')"
      using sz fit bo(1) by (simp add: CompactHistoryBlock_allocate_def)
    then have r: "CompactHistoryBlockList_allocate sz bl = Some (Some ?p, ?bl')"
      using False by (simp add: CompactHistoryBlockList_allocate_def lastb)
    have len: "length ?ys = ?n" using ne by simp
    have nth: "?ys ! k = (if k < ?m then ?xs ! k else ?b')" if "k < ?n" for k
      using that ne by (auto simp add: nth_append nth_butlast)
    have cont': "CompactHistoryBlock_contains ?b' = CompactHistoryBlock_contains ?b"
      by (rule ext) (simp add: CompactHistoryBlock_contains_def)
    have pin: "CompactHistoryBlock_contains ?b ?p"
      using bo(1) fit sz by (simp add: CompactHistoryBlock_contains_def)
    have b'ok: "blockOk ?bl' (add_mset ?p M) ?b'"
      unfolding blockOk_def cont' using bo fit pin cnt by simp
    have old: "blockOk ?bl' (add_mset ?p M) (?xs ! k)" if k: "k < ?m" for k
    proof -
      have kn: "k < ?n" using k by simp
      have o: "blockOk bl M (?xs ! k)" by (rule bok[OF kn])
      have "blockStart (?xs ! k) + blockLength (?xs ! k) \<le> blockStart ?b"
        using sorted[OF k m] .
      then have "\<not> CompactHistoryBlock_contains (?xs ! k) ?p"
        using bo(1) by (simp add: CompactHistoryBlock_contains_def)
      then show ?thesis using o by (simp add: blockOk_def)
    qed
    have same: "blockStart (?ys ! k) = blockStart (?xs ! k) \<and>
                blockLength (?ys ! k) = blockLength (?xs ! k)" if "k < ?n" for k
    proof (cases "k < ?m")
      case True
      then show ?thesis using nth[OF that] by simp
    next
      case False
      then have "k = ?m" using that by simp
      then show ?thesis using nth[OF that] by simp
    qed
    have "allocOk ?bl' (add_mset ?p M)"
      unfolding allocOk_alt
    proof (intro conjI allI impI)
      fix k assume "k < length (bl_list ?bl')"
      then have k: "k < ?n" using len by simp
      show "blockOk ?bl' (add_mset ?p M) (bl_list ?bl' ! k)"
      proof (cases "k < ?m")
        case True
        then show ?thesis using old[OF True] nth[OF k] by simp
      next
        case False
        then show ?thesis using b'ok nth[OF k] by simp
      qed
    next
      fix a b assume "a < b \<and> b < length (bl_list ?bl')"
      then have ab: "a < b" "b < ?n" using len by simp_all
      then have a: "a < ?n" by simp
      show "blockStart (bl_list ?bl' ! a) + blockLength (bl_list ?bl' ! a)
                 \<le> blockStart (bl_list ?bl' ! b)"
        using sorted[OF ab] same[OF a] same[OF ab(2)] by simp
    next
      fix q assume "q \<in># add_mset ?p M"
      then have "q = ?p \<or> q \<in># M" by auto
      then obtain k where k: "k < ?n" "CompactHistoryBlock_contains (?xs ! k) q"
        using home pin m by blast
      then have "CompactHistoryBlock_contains (?ys ! k) q"
        using same[OF k(1)] by (simp add: CompactHistoryBlock_contains_def)
      then show "\<exists>k<length (bl_list ?bl'). CompactHistoryBlock_contains (bl_list ?bl' ! k) q"
        using k(1) len by (intro exI[of _ k]) simp
    qed
    then show ?thesis using r by simp
  qed
qed

lemma allocOk_empty: "allocOk (CompactHistoryBlockList_new slab) {#}"
  by (simp add: allocOk_alt CompactHistoryBlockList_new_def)

lemma new_ok:
  assumes ok: "allocOk bl M" and f: "fits cells bl"
  shows "\<exists>l bl'. CompactHistoryLine_new cells bl = Some (l, bl') \<and>
                 allocOk bl' (M + ptrsOf l) \<and> lineOk l \<and> slabLength bl' = slabLength bl"
proof -
  have h: "0 < sizeof_CompactHistoryLine" "sizeof_CompactHistoryLine \<le> slabLength bl"
    using f by (simp_all add: fits_def sizeof_CompactHistoryLine_def)
  have lt: "length cells < 65536" using f by (simp add: fits_def)
  define len where "len = (of_nat (length cells) :: 16 word)"
  have ul: "unat len = length cells" using lt by (simp add: len_def unat_of_nat)
  obtain this bl0 where a0: "CompactHistoryBlockList_allocate sizeof_CompactHistoryLine bl
        = Some (Some this, bl0)"
    and ok0: "allocOk bl0 (add_mset this M)" and s0: "slabLength bl0 = slabLength bl"
    using allocate_ok[OF ok h] by blast
  show ?thesis
  proof (cases "cells = []")
    case True
    let ?l = "\<lparr> cl_this = this, cl_formatArray = None, cl_text = None,
                   cl_length = 0, cl_formatLength = 0, cl_wrapped = None \<rparr>"
    have "CompactHistoryLine_new cells bl = Some (?l, bl0)"
      using a0 True by (simp add: CompactHistoryLine_new_def CompactHistoryLine_ctor_def)
    moreover have "allocOk bl0 (M + ptrsOf ?l)" using ok0 True by (simp add: ptrsOf_def)
    moreover have "lineOk ?l" using True by (simp add: lineOk_def)
    ultimately show ?thesis using s0 by blast
  next
    case False
    then have pos: "0 < unat len" using ul by simp
    define fl where "fl = countFormats cells len 1 (cells ! 0) 1"
    have fl: "1 \<le> unat fl" "unat fl \<le> length cells"
      unfolding fl_def
      using countFormats_first[OF pos, of cells "cells ! 0"]
        countFormats_bound[of cells len 1 "cells ! 0"] pos ul
      by arith+
    have "sizeof_CharacterFormat * unat fl \<le> sizeof_CharacterFormat * length cells"
      using fl(2) by simp
    then have h1: "0 < sizeof_CharacterFormat * unat fl"
        "sizeof_CharacterFormat * unat fl \<le> slabLength bl0"
      using f fl(1) s0 by (simp_all add: fits_def sizeof_CharacterFormat_def)
    obtain fa bl1 where a1: "CompactHistoryBlockList_allocate (sizeof_CharacterFormat * unat fl) bl0
        = Some (Some fa, bl1)"
      and ok1: "allocOk bl1 (add_mset fa (add_mset this M))" and s1: "slabLength bl1 = slabLength bl"
      using allocate_ok[OF ok0 h1] s0 by auto
    have h2: "0 < sizeof_quint16 * length cells" "sizeof_quint16 * length cells \<le> slabLength bl1"
      using f False s1 by (simp_all add: fits_def sizeof_quint16_def sizeof_CharacterFormat_def)
    obtain tx bl2 where a2: "CompactHistoryBlockList_allocate (sizeof_quint16 * length cells) bl1
        = Some (Some tx, bl2)"
      and ok2: "allocOk bl2 (add_mset tx (add_mset fa (add_mset this M)))"
      and s2: "slabLength bl2 = slabLength bl"
      using allocate_ok[OF ok1 h2] s1 by auto
    define l where "l = fst (the (CompactHistoryLine_ctor this cells bl0))"
    have e: "CompactHistoryLine_ctor this cells bl0 \<noteq> None \<and>
             snd (the (CompactHistoryLine_ctor this cells bl0)) = bl2 \<and>
             cl_this l = this \<and> cl_text l = Some (tx, map character cells) \<and>
             (\<exists>arr. cl_formatArray l = Some (fa, arr)) \<and> cl_length l = len"
      unfolding l_def
      using a1[unfolded fl_def len_def] a2 False
      by (simp add: CompactHistoryLine_ctor_def Let_def len_def)
    then have c: "CompactHistoryLine_ctor this cells bl0 = Some (l, bl2)"
      by (auto simp add: l_def)
    have l: "cl_this l = this" "cl_text l = Some (tx, map character cells)"
        "\<exists>arr. cl_formatArray l = Some (fa, arr)" "cl_length l = len"
      using e by simp_all
    have lpos: "0 < cl_length l" using l(4) pos by (simp add: word_greater_zero_iff unat_gt_0)
    have "M + ptrsOf l = add_mset tx (add_mset fa (add_mset this M))"
      using l lpos by (auto simp add: ptrsOf_def)
    then have "allocOk bl2 (M + ptrsOf l)" using ok2 by (simp only:)
    moreover have "lineOk l" using l by (auto simp add: lineOk_def)
    moreover have "CompactHistoryLine_new cells bl = Some (l, bl2)"
      using a0 c by (simp add: CompactHistoryLine_new_def)
    ultimately show ?thesis using s2 by blast
  qed
qed

lemma delete_ok:
  assumes ok: "allocOk bl (M + ptrsOf l)" and l: "lineOk l"
  shows "\<exists>bl'. CompactHistoryLine_delete l bl = Some bl' \<and> allocOk bl' M \<and>
               slabLength bl' = slabLength bl"
proof (cases "cl_length l > 0")
  case False
  then have "allocOk bl (add_mset (cl_this l) M)" using ok by (simp add: ptrsOf_def)
  from deallocate_ok[OF this] show ?thesis
    using False by (simp add: CompactHistoryLine_delete_def)
next
  case True
  then obtain tx t fa f where a: "cl_text l = Some (tx, t)" "cl_formatArray l = Some (fa, f)"
    using l by (auto simp add: lineOk_def)
  have "M + ptrsOf l = add_mset tx (add_mset fa (add_mset (cl_this l) M))"
    using True a by (simp add: ptrsOf_def)
  then have "allocOk bl (add_mset tx (add_mset fa (add_mset (cl_this l) M)))"
    using ok by (simp only:)
  from deallocate_ok[OF this] obtain b1 where
    d1: "CompactHistoryBlockList_deallocate tx bl = Some b1"
    and o1: "allocOk b1 (add_mset fa (add_mset (cl_this l) M))" and s1: "slabLength b1 = slabLength bl"
    by blast
  from deallocate_ok[OF o1] obtain b2 where
    d2: "CompactHistoryBlockList_deallocate fa b1 = Some b2"
    and o2: "allocOk b2 (add_mset (cl_this l) M)" and s2: "slabLength b2 = slabLength b1"
    by blast
  from deallocate_ok[OF o2] obtain b3 where
    d3: "CompactHistoryBlockList_deallocate (cl_this l) b2 = Some b3"
    and o3: "allocOk b3 M" and s3: "slabLength b3 = slabLength b2"
    by blast
  show ?thesis
    using True a d1 d2 d3 o3 s1 s2 s3 by (simp add: CompactHistoryLine_delete_def)
qed

lemma addCellsVector_ok:
  assumes ok: "storeOk s" and m: "0 \<le> sint (cs_maxLineCount s)"
    and f: "fits cells (cs_blockList s)"
  shows "\<exists>s' l. CompactHistoryScroll_addCellsVector cells s = Some s' \<and> storeOk s' \<and>
           cs_maxLineCount s' = cs_maxLineCount s \<and>
           slabLength (cs_blockList s') = slabLength (cs_blockList s) \<and>
           cs_lines s' = (if int (length (cs_lines s)) > sint (cs_maxLineCount s)
                          then tl (cs_lines s) else cs_lines s) @ [l]"
proof -
  let ?M = "sum_list (map ptrsOf (cs_lines s))"
  have a: "allocOk (cs_blockList s) ?M" and lo: "\<And>x. x \<in> set (cs_lines s) \<Longrightarrow> lineOk x"
    using ok by (simp_all add: storeOk_def)
  obtain l bl1 where n: "CompactHistoryLine_new cells (cs_blockList s) = Some (l, bl1)"
    and o1: "allocOk bl1 (?M + ptrsOf l)" and ll: "lineOk l"
    and s1: "slabLength bl1 = slabLength (cs_blockList s)"
    using new_ok[OF a f] by blast
  show ?thesis
  proof (cases "int (length (cs_lines s)) > sint (cs_maxLineCount s)")
    case False
    let ?s' = "s\<lparr> cs_lines := cs_lines s @ [l], cs_blockList := bl1 \<rparr>"
    have "CompactHistoryScroll_addCellsVector cells s = Some ?s'"
      using n False by (simp add: CompactHistoryScroll_addCellsVector_def)
    moreover have "storeOk ?s'" using o1 ll lo by (auto simp add: storeOk_def)
    ultimately show ?thesis using False s1 by simp
  next
    case True
    then obtain oldest rest where c: "cs_lines s = oldest # rest"
      using m by (cases "cs_lines s") auto
    have "allocOk bl1 ((sum_list (map ptrsOf rest) + ptrsOf l) + ptrsOf oldest)"
      using o1 by (simp add: c ac_simps)
    from delete_ok[OF this] obtain bl2 where d: "CompactHistoryLine_delete oldest bl1 = Some bl2"
      and o2: "allocOk bl2 (sum_list (map ptrsOf rest) + ptrsOf l)"
      and s2: "slabLength bl2 = slabLength bl1"
      using lo c by auto
    let ?s' = "s\<lparr> cs_lines := rest @ [l], cs_blockList := bl2 \<rparr>"
    have "CompactHistoryScroll_addCellsVector cells s = Some ?s'"
      using n True d c by (simp add: CompactHistoryScroll_addCellsVector_def)
    moreover have "storeOk ?s'" using o2 ll lo c by (auto simp add: storeOk_def)
    ultimately show ?thesis using True s1 s2 c by simp
  qed
qed

lemma commitLine_ok:
  assumes ok: "storeOk s" and m: "0 \<le> sint (cs_maxLineCount s)"
    and f: "fits cells (cs_blockList s)"
  shows "\<exists>s'. commitLine cells wrapped s = Some s' \<and> storeOk s' \<and>
           cs_maxLineCount s' = cs_maxLineCount s \<and>
           slabLength (cs_blockList s') = slabLength (cs_blockList s) \<and>
           length (cs_lines s') = (if int (length (cs_lines s)) > sint (cs_maxLineCount s)
                                   then length (cs_lines s) else length (cs_lines s) + 1)"
proof -
  obtain s1 l where a: "CompactHistoryScroll_addCellsVector cells s = Some s1"
    and o1: "storeOk s1" and m1: "cs_maxLineCount s1 = cs_maxLineCount s"
    and sl: "slabLength (cs_blockList s1) = slabLength (cs_blockList s)"
    and ls: "cs_lines s1 = (if int (length (cs_lines s)) > sint (cs_maxLineCount s)
                          then tl (cs_lines s) else cs_lines s) @ [l]"
    using addCellsVector_ok[OF ok m f] by blast
  define pre where "pre = (if int (length (cs_lines s)) > sint (cs_maxLineCount s)
                          then tl (cs_lines s) else cs_lines s)"
  have ls': "cs_lines s1 = pre @ [l]" using ls by (simp add: pre_def)
  let ?l = "l\<lparr> cl_wrapped := Some wrapped \<rparr>"
  let ?s' = "s1\<lparr> cs_lines := pre @ [?l] \<rparr>"
  have w: "CompactHistoryScroll_addLine wrapped s1 = Some ?s'"
    by (simp add: CompactHistoryScroll_addLine_def ls')
  have p: "ptrsOf ?l = ptrsOf l" "lineOk ?l = lineOk l"
    by (simp_all add: ptrsOf_def lineOk_def)
  have "storeOk ?s'" using o1 p by (auto simp add: storeOk_def ls')
  moreover have "commitLine cells wrapped s = Some ?s'"
    using a w by (simp add: commitLine_def CompactHistoryScroll_addCells_def)
  moreover have "length pre = (if int (length (cs_lines s)) > sint (cs_maxLineCount s)
                                   then length (cs_lines s) - 1 else length (cs_lines s))"
    by (simp add: pre_def)
  moreover have "int (length (cs_lines s)) > sint (cs_maxLineCount s) \<Longrightarrow> 0 < length (cs_lines s)"
    using m by auto
  ultimately show ?thesis using m1 sl by (intro exI[of _ ?s']) auto
qed



lemma new_store_ok:
  assumes "0 \<le> sint m"
  shows "\<exists>s. CompactHistoryScroll_new slab m = Some s \<and> storeOk s \<and> cs_lines s = [] \<and>
             cs_maxLineCount s = m \<and> slabLength (cs_blockList s) = slab"
proof -
  have "setMaxNbLines_loop m [] (CompactHistoryBlockList_new slab)
        = Some ([], CompactHistoryBlockList_new slab)"
    using assms by (subst setMaxNbLines_loop.simps) simp
  then show ?thesis
    by (simp add: CompactHistoryScroll_new_def CompactHistoryScroll_setMaxNbLines_def storeOk_def
        allocOk_empty) (simp add: CompactHistoryBlockList_new_def)
qed


lemma storeOk_emptyStore3: "storeOk emptyStore3"
  by (simp add: storeOk_def emptyStore3_def allocOk_empty)



subsection \<open>Capacity of the store\<close>

text \<open>
  C1. The scenario of the spec on the code: a store of capacity 3 that is given the four
  lines "a", "b", "c", "d" reports four lines and still holds "a". The test before the
  append, \<^verbatim>\<open>lines.size() > _maxLineCount\<close>, lets the list grow to one line more than the
  capacity.
\<close>

theorem compact_capacity_3_holds_4:
  "map_option (\<lambda>s. (CompactHistoryScroll_getLines s, map (cellsOf Character_default) (cs_lines s)))
     (do { s0 \<leftarrow> CompactHistoryScroll_new 4096 3;
           commitLines [([cell 97], False), ([cell 98], False), ([cell 99], False),
                        ([cell 100], False)] s0 })
   = Some (4, [Some [cell 97], Some [cell 98], Some [cell 99], Some [cell 100]])"
  by (simp add: compact_defs Let_def)

subsection \<open>Reading back a committed line\<close>

text \<open>
  C6 (amended). A cell sequence of fewer than 65536 cells committed to the compact store
  (\<^verbatim>\<open>addCells\<close> with its length, then \<^verbatim>\<open>addLine\<close>) is read back unchanged. The commit
  completes on every well-formed store with a capacity in the range of \<^verbatim>\<open>int\<close> when the
  line fits the length field and the slabs, and leaves the store well formed. Whenever a
  commit of fewer than 65536 cells completes, \<^verbatim>\<open>getCells(L, 0, len)\<close> on the line just
  committed writes exactly the original cells over the front of the caller's buffer, whatever
  the pattern of format changes; the line length and the wrapped flag are read back too.
\<close>

theorem compact_getCells_roundtrip:
  "(storeOk s \<and> 0 \<le> sint (cs_maxLineCount s) \<and> fits cells (cs_blockList s) \<longrightarrow>
      (\<exists>s1. commitLine cells wrapped s = Some s1 \<and> storeOk s1)) \<and>
   (commitLine cells wrapped s = Some s' \<and> length cells < 65536 \<and>
    length cells \<le> length buffer \<longrightarrow>
      CompactHistoryScroll_getCells (CompactHistoryScroll_getLines s' - 1) 0
        (int (length cells)) buffer s' = Some (cells @ drop (length cells) buffer) \<and>
      CompactHistoryScroll_getLineLen (CompactHistoryScroll_getLines s' - 1) s'
        = Some (int (length cells)) \<and>
      CompactHistoryScroll_isWrappedLine (CompactHistoryScroll_getLines s' - 1) s'
        = Some wrapped)"
proof (rule conjI; rule impI)
  assume "storeOk s \<and> 0 \<le> sint (cs_maxLineCount s) \<and> fits cells (cs_blockList s)"
  then show "\<exists>s1. commitLine cells wrapped s = Some s1 \<and> storeOk s1"
    using commitLine_ok[of s cells wrapped] by blast
next
  assume h: "commitLine cells wrapped s = Some s' \<and> length cells < 65536 \<and>
             length cells \<le> length buffer"
  then have c: "commitLine cells wrapped s = Some s'" and lt: "length cells < 65536"
    and buf: "length cells \<le> length buffer"
    by simp_all
  obtain s1 where a: "CompactHistoryScroll_addCellsVector cells s = Some s1"
    and w: "CompactHistoryScroll_addLine wrapped s1 = Some s'"
    using c by (auto simp add: commitLine_def CompactHistoryScroll_addCells_def bind_eq_Some_conv)
  define l where "l = last (cs_lines s1)"
  define ls where "ls = butlast (cs_lines s1)"
  define bl where "bl = cs_blockList s"
  obtain bl' where n: "CompactHistoryLine_new cells bl = Some (l, bl')"
    using addCellsVector_lines[OF a] by (auto simp add: l_def bl_def)
  have ls: "cs_lines s1 = ls @ [l]"
    using addCellsVector_lines[OF a] by (simp add: l_def ls_def)
  let ?l = "l\<lparr> cl_wrapped := Some wrapped \<rparr>"
  have s': "cs_lines s' = ls @ [?l]"
    using w ls by (auto simp add: CompactHistoryScroll_addLine_def)
  have L: "CompactHistoryScroll_getLines s' - 1 = int (length ls)"
    by (simp add: CompactHistoryScroll_getLines_def s')
  have nth: "cs_lines s' ! length ls = ?l" by (simp add: s')
  obtain this bl1 where ct: "CompactHistoryLine_ctor this cells bl1 = Some (l, bl')"
    using n by (auto simp add: CompactHistoryLine_new_def split: option.splits)
  have "unat (cl_length ?l) = length cells"
    using ctor_length[OF ct] lt by (simp add: unat_of_nat)
  then have len: "uint (cl_length ?l) = int (length cells)" by (simp add: uint_nat)
  have g: "CompactHistoryLine_getCharacters ?l buffer (int (length cells)) 0
           = Some (cells @ drop (length cells) buffer)"
    by (rule new_getCharacters[OF n buf lt])
  have cells: "CompactHistoryScroll_getCells (int (length ls)) 0 (int (length cells)) buffer s'
        = Some (cells @ drop (length cells) buffer)"
  proof (cases "cells = []")
    case True
    then show ?thesis by (simp add: CompactHistoryScroll_getCells_def)
  next
    case False
    then show ?thesis
      using g len nth by (simp add: CompactHistoryScroll_getCells_def s' Let_def)
  qed
  show "CompactHistoryScroll_getCells (CompactHistoryScroll_getLines s' - 1) 0
        (int (length cells)) buffer s' = Some (cells @ drop (length cells) buffer) \<and>
      CompactHistoryScroll_getLineLen (CompactHistoryScroll_getLines s' - 1) s'
        = Some (int (length cells)) \<and>
      CompactHistoryScroll_isWrappedLine (CompactHistoryScroll_getLines s' - 1) s'
        = Some wrapped"
    unfolding L using cells len nth
    by (simp add: CompactHistoryScroll_getLineLen_def CompactHistoryScroll_isWrappedLine_def s')
qed

text \<open>
  Witness for C6: a line with three format runs is committed to the empty store of capacity
  3, which is well formed and whose slabs it fits, and read into a buffer of six cells.
\<close>

theorem compact_getCells_roundtrip_witness:
  "storeOk emptyStore3 \<and> 0 \<le> sint (cs_maxLineCount emptyStore3) \<and>
   fits exampleLine (cs_blockList emptyStore3) \<and>
   commitLine exampleLine True emptyStore3 \<noteq> None \<and>
   length exampleLine < 65536 \<and>
   length exampleLine \<le> length (replicate 6 Character_default) \<and>
   CompactHistoryScroll_getCells
     (CompactHistoryScroll_getLines (the (commitLine exampleLine True emptyStore3)) - 1) 0
     (int (length exampleLine)) (replicate 6 Character_default)
     (the (commitLine exampleLine True emptyStore3))
   = Some (exampleLine @ replicate 2 Character_default)"
proof -
  let ?s' = "the (commitLine exampleLine True emptyStore3)"
  let ?buf = "replicate 6 Character_default"
  have h: "storeOk emptyStore3 \<and> 0 \<le> sint (cs_maxLineCount emptyStore3) \<and>
           fits exampleLine (cs_blockList emptyStore3)"
    using storeOk_emptyStore3
    by (simp add: emptyStore3_def fits_def exampleLine_def CompactHistoryBlockList_new_def
        sizeof_CompactHistoryLine_def sizeof_CharacterFormat_def)
  have e: "commitLine exampleLine True emptyStore3 \<noteq> None"
    using compact_getCells_roundtrip [of emptyStore3 exampleLine True] h by auto
  then have s: "commitLine exampleLine True emptyStore3 = Some ?s'" by simp
  have b: "length exampleLine < 65536" "length exampleLine \<le> length ?buf"
    by (simp_all add: exampleLine_def)
  show ?thesis
    using h e b compact_getCells_roundtrip [of emptyStore3 exampleLine True ?s' ?buf] s
    by (simp add: exampleLine_def)
qed

text \<open>
  Counterexample for C6: a line of 65536 cells is committed to an empty store whose slabs
  have 262144 bytes. The commit completes and the store has one line, but the length field
  holds 65536 modulo 65536: the line reports the length 0, and \<^verbatim>\<open>getCells(0, 0, 65536)\<close>
  does not return the cells (the assertion of \<^verbatim>\<open>getCharacters\<close> on the length fails).
\<close>

theorem long_line_not_read_back:
  "map_option
     (\<lambda>s. (CompactHistoryScroll_getLines s, CompactHistoryScroll_getLineLen 0 s,
           CompactHistoryScroll_getCells 0 0 65536 (replicate 65536 Character_default) s))
     (do { s0 \<leftarrow> CompactHistoryScroll_new 262144 3;
           commitLine (replicate 65536 (cell 97)) False s0 })
   = Some (1, Some 0, None)"
  by (simp add: compact_defs CompactHistoryScroll_getLineLen_def CompactHistoryScroll_getCells_def
      Let_def)

text \<open>
  In general the line just committed reports its length modulo 65536 (4464 for a line of
  70000 cells).
\<close>

lemma commitLine_getLineLen:
  assumes c: "commitLine cells wrapped s = Some s'"
  shows "CompactHistoryScroll_getLineLen (CompactHistoryScroll_getLines s' - 1) s'
         = Some (int (length cells mod 65536))"
proof -
  obtain s1 where a: "CompactHistoryScroll_addCellsVector cells s = Some s1"
    and w: "CompactHistoryScroll_addLine wrapped s1 = Some s'"
    using c by (auto simp add: commitLine_def CompactHistoryScroll_addCells_def bind_eq_Some_conv)
  define l where "l = last (cs_lines s1)"
  define ls where "ls = butlast (cs_lines s1)"
  obtain bl' where n: "CompactHistoryLine_new cells (cs_blockList s) = Some (l, bl')"
    using addCellsVector_lines[OF a] by (auto simp add: l_def)
  have ls: "cs_lines s1 = ls @ [l]"
    using addCellsVector_lines[OF a] by (simp add: l_def ls_def)
  let ?l = "l\<lparr> cl_wrapped := Some wrapped \<rparr>"
  have s': "cs_lines s' = ls @ [?l]"
    using w ls by (auto simp add: CompactHistoryScroll_addLine_def)
  obtain this bl1 where ct: "CompactHistoryLine_ctor this cells bl1 = Some (l, bl')"
    using n by (auto simp add: CompactHistoryLine_new_def split: option.splits)
  have "uint (cl_length ?l) = int (length cells mod 65536)"
    using ctor_length[OF ct] by (simp add: uint_nat unat_of_nat)
  then show ?thesis
    by (simp add: CompactHistoryScroll_getLineLen_def CompactHistoryScroll_getLines_def s')
qed

subsection \<open>Slab allocations of a line\<close>

text \<open>
  C9 (amended). On a well-formed allocator a line that fits the length field and the slabs
  is always built, and a line is always destroyed while the allocator is well formed against
  its pointers. Whenever a line is built, the allocator holds three more live allocations
  than before if the cell sequence is not empty (the line header, the format-run array and
  the code-point array) and one more if it is empty (the header alone). Whenever a line
  built from fewer than 65536 cells is destroyed, with its wrapped flag set or not, three
  allocations are released if it was built from cells and one if it was built from none.
\<close>

theorem line_allocations:
  "(allocOk bl M \<and> fits cells bl \<longrightarrow>
      (\<exists>l1 b1. CompactHistoryLine_new cells bl = Some (l1, b1) \<and> lineOk l1 \<and>
                allocOk b1 (M + ptrsOf l1))) \<and>
   (allocOk bd (M + ptrsOf ld) \<and> lineOk ld \<longrightarrow>
      (\<exists>b3. CompactHistoryLine_delete ld bd = Some b3 \<and> allocOk b3 M)) \<and>
   (CompactHistoryLine_new cells bl = Some (l, bl') \<longrightarrow>
      cl_length l = of_nat (length cells) \<and>
      liveAllocations bl' = liveAllocations bl + (if cells = [] then 1 else 3)) \<and>
   (CompactHistoryLine_new cells bl = Some (l, bl') \<and> length cells < 65536 \<and>
    CompactHistoryLine_delete (l\<lparr> cl_wrapped := w \<rparr>) bd = Some bd' \<longrightarrow>
      liveAllocations bd' = liveAllocations bd - (if cells = [] then 1 else 3))"
proof (intro conjI impI)
  assume "allocOk bl M \<and> fits cells bl"
  then show "\<exists>l1 b1. CompactHistoryLine_new cells bl = Some (l1, b1) \<and> lineOk l1 \<and>
                allocOk b1 (M + ptrsOf l1)"
    using new_ok[of bl M cells] by blast
next
  assume "allocOk bd (M + ptrsOf ld) \<and> lineOk ld"
  then show "\<exists>b3. CompactHistoryLine_delete ld bd = Some b3 \<and> allocOk b3 M"
    using delete_ok[of bd M ld] by blast
next
  assume n: "CompactHistoryLine_new cells bl = Some (l, bl')"
  then obtain this bl0 where
    a: "CompactHistoryBlockList_allocate sizeof_CompactHistoryLine bl = Some (Some this, bl0)"
    and c: "CompactHistoryLine_ctor this cells bl0 = Some (l, bl')"
    by (auto simp add: CompactHistoryLine_new_def split: option.splits)
  show "cl_length l = of_nat (length cells)" using ctor_length[OF c] .
  show "liveAllocations bl' = liveAllocations bl + (if cells = [] then 1 else 3)"
    using allocate_live[OF a] ctor_live[OF c] by simp
next
  assume h: "CompactHistoryLine_new cells bl = Some (l, bl') \<and> length cells < 65536 \<and>
    CompactHistoryLine_delete (l\<lparr> cl_wrapped := w \<rparr>) bd = Some bd'"
  let ?l = "l\<lparr> cl_wrapped := w \<rparr>"
  have n: "CompactHistoryLine_new cells bl = Some (l, bl')" and lt: "length cells < 65536"
    and d: "CompactHistoryLine_delete ?l bd = Some bd'"
    using h by simp_all
  obtain this bl0 where c: "CompactHistoryLine_ctor this cells bl0 = Some (l, bl')"
    using n by (auto simp add: CompactHistoryLine_new_def split: option.splits)
  have ul: "unat (cl_length ?l) = length cells"
    using ctor_length[OF c] lt by (simp add: unat_of_nat)
  show "liveAllocations bd' = liveAllocations bd - (if cells = [] then 1 else 3)"
  proof (cases "cells = []")
    case False
    then have "cl_length ?l \<noteq> 0" using ul by auto
    then have pos: "0 < cl_length ?l" by (simp add: word_neq_0_conv)
    then obtain tx t b1 fa f b2 where
      "CompactHistoryBlockList_deallocate tx bd = Some b1"
      "CompactHistoryBlockList_deallocate fa b1 = Some b2"
      "CompactHistoryBlockList_deallocate (cl_this ?l) b2 = Some bd'"
      using d by (auto simp add: CompactHistoryLine_delete_def bind_eq_Some_conv)
    then show ?thesis
      using False deallocate_live[of tx bd b1] deallocate_live[of fa b1 b2]
        deallocate_live[of "cl_this ?l" b2 bd'] by simp
  next
    case True
    then have z: "cl_length ?l = 0" using ul by (simp add: unat_eq_zero)
    then have "CompactHistoryBlockList_deallocate (cl_this ?l) bd = Some bd'"
      using d by (simp add: CompactHistoryLine_delete_def)
    then show ?thesis using True deallocate_live[of "cl_this ?l" bd bd'] by simp
  qed
qed

text \<open>
  Counterexample for C9: a line built from no cells on a fresh allocator leaves one live
  allocation, not three.
\<close>

theorem empty_line_one_allocation:
  "map_option (\<lambda>(l, bl). (cl_length l, liveAllocations bl))
     (CompactHistoryLine_new [] (CompactHistoryBlockList_new 4096)) = Some (0, 1)"
  by (simp add: compact_defs liveAllocations_def Let_def)

text \<open>
  Witness for C9: on a fresh allocator, which is well formed, a line of four cells is built
  and holds three allocations, a line of no cells is built and holds one; deleting the line
  releases them all.
\<close>

theorem line_allocations_witness:
  "allocOk (CompactHistoryBlockList_new 4096) {#} \<and>
   fits exampleLine (CompactHistoryBlockList_new 4096) \<and>
   length exampleLine < 65536 \<and>
   (\<exists>l bl1 bl3. CompactHistoryLine_new exampleLine (CompactHistoryBlockList_new 4096) = Some (l, bl1) \<and>
      lineOk l \<and> allocOk bl1 ({#} + ptrsOf l) \<and> liveAllocations bl1 = 3 \<and>
      CompactHistoryLine_delete l bl1 = Some bl3 \<and> liveAllocations bl3 = 0) \<and>
   (\<exists>l bl1 bl3. CompactHistoryLine_new [] (CompactHistoryBlockList_new 4096) = Some (l, bl1) \<and>
      liveAllocations bl1 = 1 \<and>
      CompactHistoryLine_delete l bl1 = Some bl3 \<and> liveAllocations bl3 = 0)"
proof -
  let ?bl = "CompactHistoryBlockList_new 4096"
  have l0: "liveAllocations ?bl = 0"
    by (simp add: liveAllocations_def CompactHistoryBlockList_new_def)
  have ok: "allocOk ?bl {#}" by (rule allocOk_empty)
  have f: "fits exampleLine ?bl" "fits [] ?bl"
    by (simp_all add: fits_def exampleLine_def CompactHistoryBlockList_new_def
        sizeof_CompactHistoryLine_def sizeof_CharacterFormat_def)
  have lt: "length exampleLine < 65536" by (simp add: exampleLine_def)
  obtain l bl1 where n: "CompactHistoryLine_new exampleLine ?bl = Some (l, bl1)"
    and lo: "lineOk l" and o1: "allocOk bl1 ({#} + ptrsOf l)"
    using line_allocations [where bl = ?bl and M = "{#}" and cells = exampleLine] ok f by blast
  obtain bl3 where d: "CompactHistoryLine_delete l bl1 = Some bl3"
    using line_allocations [where bd = bl1 and M = "{#}" and ld = l] lo o1 by blast
  obtain e be1 where ne: "CompactHistoryLine_new [] ?bl = Some (e, be1)"
    and eo: "lineOk e" and o2: "allocOk be1 ({#} + ptrsOf e)"
    using line_allocations [where bl = ?bl and M = "{#}" and cells = "[]"] ok f by blast
  obtain be3 where de: "CompactHistoryLine_delete e be1 = Some be3"
    using line_allocations [where bd = be1 and M = "{#}" and ld = e] eo o2 by blast
  have w: "l\<lparr> cl_wrapped := cl_wrapped l \<rparr> = l" "e\<lparr> cl_wrapped := cl_wrapped e \<rparr> = e"
    by simp_all
  have a: "liveAllocations bl1 = 3" "liveAllocations bl3 = 0"
    using line_allocations [where bl = ?bl and cells = exampleLine and l = l and bl' = bl1
        and w = "cl_wrapped l" and bd = bl1 and bd' = bl3] n d l0 lt w
    by (simp_all add: exampleLine_def)
  have b: "liveAllocations be1 = 1" "liveAllocations be3 = 0"
    using line_allocations [where bl = ?bl and cells = "[]" and l = e and bl' = be1
        and w = "cl_wrapped e" and bd = be1 and bd' = be3] ne de l0 w
    by simp_all
  show ?thesis using ok f lt n lo o1 d ne de a b by blast
qed

text \<open>
  At the bound: a line of 65536 cells takes the three allocations, its length field reads 0,
  and its destructor, which tests the length field, releases the header alone; two
  allocations stay live.
\<close>

lemma long_line_leaks:
  "map_option (\<lambda>(l, bl). (cl_length l, liveAllocations bl,
                          map_option liveAllocations (CompactHistoryLine_delete l bl)))
     (CompactHistoryLine_new (replicate 65536 (cell 97)) (CompactHistoryBlockList_new 262144))
   = Some (0, 3, Some 2)"
  by (simp add: compact_defs liveAllocations_def Let_def)

section \<open>Properties of reconfiguration\<close>

text \<open>
  C2. A file-backed store holding one line is reconfigured to a compact store of capacity
  5: the store that \<^verbatim>\<open>CompactHistoryType::scroll\<close> returns has no line, where the last
  \<open>min 5 1 = 1\<close> line of the old store was to be kept. The old store is deleted without
  being read.
\<close>

theorem compact_scroll_drops_file_history:
  "map_option HistoryScrollFile_getLines fooFile = Some 1 \<and>
   (case fooFile of
      None \<Rightarrow> None
    | Some f \<Rightarrow>
        (case CompactHistoryType_scroll 4096 5 (Some 0) (heapOf (ScrollFile f)) of
           None \<Rightarrow> None
         | Some (p, h) \<Rightarrow> map_option HistoryScroll_getLines (objects h p))) = Some 0"
  by code_simp








section \<open>Properties of the file-backed store\<close>

lemma sint_small: "0 \<le> x \<Longrightarrow> x \<le> INT_MAX \<Longrightarrow> sint (word_of_int x :: 32 word) = x"
  by (simp add: sint_sbintrunc' signed_take_bit_int_eq_self INT_MAX_def)

lemma word32_bytes:
  "(ucast (ucast w :: byte) :: 32 word) OR push_bit 8 (ucast (ucast (drop_bit 8 w) :: byte))
     OR push_bit 16 (ucast (ucast (drop_bit 16 w) :: byte))
     OR push_bit 24 (ucast (ucast (drop_bit 24 w) :: byte)) = (w :: 32 word)"
proof (rule bit_word_eqI)
  fix n assume n: "n < LENGTH(32)"
  consider "n < 8" | "8 \<le> n" "n < 16" | "16 \<le> n" "n < 24" | "24 \<le> n" "n < 32"
    using n by fastforce
  then show "bit ((ucast (ucast w :: byte) :: 32 word) OR push_bit 8 (ucast (ucast (drop_bit 8 w) :: byte))
     OR push_bit 16 (ucast (ucast (drop_bit 16 w) :: byte))
     OR push_bit 24 (ucast (ucast (drop_bit 24 w) :: byte))) n = bit w n"
    by cases (auto simp add: bit_simps)
qed

lemma word16_bytes:
  "(ucast (ucast w :: byte) :: 16 word) OR push_bit 8 (ucast (ucast (drop_bit 8 w) :: byte)) = (w :: 16 word)"
proof (rule bit_word_eqI)
  fix n assume n: "n < LENGTH(16)"
  consider "n < 8" | "8 \<le> n" "n < 16"
    using n by fastforce
  then show "bit ((ucast (ucast w :: byte) :: 16 word) OR push_bit 8 (ucast (ucast (drop_bit 8 w) :: byte))) n = bit w n"
    by cases (auto simp add: bit_simps)
qed

lemma bytes_int_int_bytes: "0 \<le> n \<Longrightarrow> n \<le> INT_MAX \<Longrightarrow> bytes_int (int_bytes n) = n"
  by (simp add: bytes_int_def int_bytes_def Let_def word32_bytes sint_small)

lemma length_int_bytes [simp]: "length (int_bytes n) = 4"
  by (simp add: int_bytes_def Let_def)

lemma length_Character_bytes [simp]: "length (Character_bytes c) = 12"
  by (simp add: Character_bytes_def CharacterColor_bytes_def)

lemma bytes_Character_bytes: "bytes_Character (Character_bytes c) = c"
  by (simp add: bytes_Character_def Character_bytes_def CharacterColor_bytes_def
      bytes_CharacterColor_def word16_bytes)

lemma div_size_t_small:
  "0 \<le> a \<Longrightarrow> a \<le> INT_MAX \<Longrightarrow> 0 < b \<Longrightarrow> div_size_t a b = a div b"
proof -
  assume a: "0 \<le> a" "a \<le> INT_MAX" and b: "0 < b"
  have "a mod 2 ^ 64 = a" using a by (simp add: INT_MAX_def)
  moreover have "0 \<le> a div b" using a b by (simp add: pos_imp_zdiv_nonneg_iff)
  moreover have "a div b \<le> a" using zdiv_mono2[of a 1 b] a b by simp
  then have "a div b \<le> INT_MAX" using a by simp
  ultimately show ?thesis by (simp add: div_size_t_def sint_small)
qed

lemma chunk_nth:
  "(\<And>x. length (f x) = k) \<Longrightarrow> i < length xs \<Longrightarrow>
   take k (drop (k * i) (concat (map f xs))) = f (xs ! i)"
proof (induction xs arbitrary: i)
  case Nil
  then show ?case by simp
next
  case (Cons x xs)
  show ?case
  proof (cases i)
    case 0
    then show ?thesis using Cons.prems(1) by simp
  next
    case (Suc j)
    then have "k * i = length (f x) + k * j" using Cons.prems(1) by simp
    then show ?thesis using Cons.IH[of j] Cons.prems Suc by simp
  qed
qed

lemma length_concat_chunks:
  "(\<And>x. length (f x) = k) \<Longrightarrow> length (concat (map f xs)) = k * length xs"
  by (induction xs) simp_all

lemma length_cells_bytes [simp]: "length (cells_bytes cs) = 12 * length cs"
  by (simp add: cells_bytes_def length_concat_chunks[where k = 12])

lemma bytes_cells_cells_bytes: "bytes_cells (length cs) (cells_bytes cs) = cs"
proof (rule nth_equalityI)
  show "length (bytes_cells (length cs) (cells_bytes cs)) = length cs"
    by (simp add: bytes_cells_def)
next
  fix i assume "i < length (bytes_cells (length cs) (cells_bytes cs))"
  then have i: "i < length cs" by (simp add: bytes_cells_def)
  have "take 12 (drop (12 * i) (concat (map Character_bytes cs))) = Character_bytes (cs ! i)"
    using i by (intro chunk_nth) simp_all
  then show "bytes_cells (length cs) (cells_bytes cs) ! i = cs ! i"
    using i by (simp add: bytes_cells_def cells_bytes_def bytes_Character_bytes)
qed

lemma concat_drop_take:
  "L < length xss \<Longrightarrow>
   take (length (xss ! L)) (drop (length (concat (take L xss))) (concat xss)) = xss ! L"
proof (induction xss arbitrary: L)
  case Nil
  then show ?case by simp
next
  case (Cons xs xss)
  show ?case
  proof (cases L)
    case 0
    then show ?thesis by simp
  next
    case (Suc j)
    then show ?thesis using Cons.IH[of j] Cons.prems by simp
  qed
qed

lemma HistoryFile_add_append:
  assumes "m_length f = int (length (fileData f))"
    and "m_length f + int (length buf) \<le> INT_MAX"
  shows "\<exists>f'. HistoryFile_add buf (int (length buf)) f = Some f' \<and>
              fileData f' = fileData f @ buf \<and>
              m_length f' = m_length f + int (length buf)"
  using assms by (simp add: HistoryFile_add_def HistoryFile_unmap_def pwrite_def Let_def)

lemma HistoryFile_map_keeps:
  "\<not> m_fileMap f \<Longrightarrow>
   \<exists>f'. HistoryFile_map f = Some f' \<and> fileData f' = fileData f \<and> m_length f' = m_length f"
  by (simp add: HistoryFile_map_def)

lemma HistoryFile_get_reads:
  assumes "0 \<le> loc" "0 \<le> sz" "loc + sz \<le> m_length f"
  shows "\<exists>f'. HistoryFile_get sz loc f = Some (take (nat sz) (drop (nat loc) (fileData f)), f') \<and>
              fileData f' = fileData f \<and> m_length f' = m_length f"
proof -
  let ?f1 = "f\<lparr> m_readWriteBalance := m_readWriteBalance f - 1 \<rparr>"
  have "\<exists>f2. (if \<not> m_fileMap ?f1 \<and> m_readWriteBalance ?f1 < MAP_THRESHOLD
               then HistoryFile_map ?f1 else Some ?f1) = Some f2 \<and>
             fileData f2 = fileData f \<and> m_length f2 = m_length f"
    using HistoryFile_map_keeps[of ?f1] by auto
  then obtain f2 where "(if \<not> m_fileMap ?f1 \<and> m_readWriteBalance ?f1 < MAP_THRESHOLD
               then HistoryFile_map ?f1 else Some ?f1) = Some f2"
    and "fileData f2 = fileData f" "m_length f2 = m_length f" by blast
  then show ?thesis
    using assms by (simp add: HistoryFile_get_def Let_def)
qed

lemma cellCount_append [simp]: "cellCount (xs @ ys) = cellCount xs + cellCount ys"
  by (simp add: cellCount_def)

lemma cellCount_Nil [simp]: "cellCount [] = 0"
  by (simp add: cellCount_def)

lemma cellCount_Cons [simp]: "cellCount ((cs, w) # ls) = length cs + cellCount ls"
  by (simp add: cellCount_def)

lemma stores_new: "stores HistoryScrollFile_new []"
  by (simp add: stores_def HistoryScrollFile_new_def HistoryFile_new_def cellCount_def)

lemma length_lines_bytes:
  "length (concat (map (\<lambda>(cs, w). cells_bytes cs) ls)) = 12 * cellCount ls"
  by (induction ls) (auto simp add: cellCount_def)

lemma length_index_bytes:
  "length (concat (map (\<lambda>k. int_bytes (g k)) ks)) = 4 * length ks"
  by (rule length_concat_chunks) simp

lemma index_snoc:
  "concat (map (\<lambda>k. int_bytes (12 * int (cellCount (take (Suc k) (ls @ [x]))))) [0..<Suc (length ls)])
   = concat (map (\<lambda>k. int_bytes (12 * int (cellCount (take (Suc k) ls)))) [0..<length ls])
     @ int_bytes (12 * int (cellCount (ls @ [x])))"
proof -
  have m: "map (\<lambda>k. int_bytes (12 * int (cellCount (take (Suc k) (ls @ [x]))))) [0..<length ls]
        = map (\<lambda>k. int_bytes (12 * int (cellCount (take (Suc k) ls)))) [0..<length ls]"
    by (rule map_cong) simp_all
  have split: "[0..<Suc (length ls)] = [0..<length ls] @ [length ls]" by simp
  show ?thesis
    unfolding split map_append concat_append m by simp
qed

lemma stores_step:
  assumes st: "stores s ls"
    and b1: "12 * int (cellCount (ls @ [(cs, w)])) \<le> INT_MAX"
    and b2: "4 * int (length (ls @ [(cs, w)])) \<le> INT_MAX"
  shows "\<exists>s1 s2. HistoryScrollFile_addCells cs (int (length cs)) s = Some s1 \<and>
                 HistoryScrollFile_addLine w s1 = Some s2 \<and> stores s2 (ls @ [(cs, w)])"
proof -
  have cd: "fileData (hs_cells s) = concat (map (\<lambda>(cs, w). cells_bytes cs) ls)"
    and cl: "m_length (hs_cells s) = 12 * int (cellCount ls)"
    and idt: "fileData (hs_index s)
       = concat (map (\<lambda>k. int_bytes (12 * int (cellCount (take (Suc k) ls)))) [0..<length ls])"
    and il: "m_length (hs_index s) = 4 * int (length ls)"
    and fd: "fileData (hs_lineflags s) = map (\<lambda>(cs, w). if w then 1 else 0) ls"
    and fl: "m_length (hs_lineflags s) = int (length ls)"
    using st by (simp_all add: stores_def)
  have c0: "m_length (hs_cells s) = int (length (fileData (hs_cells s)))"
    by (simp add: cd cl length_lines_bytes)
  have "m_length (hs_cells s) + int (length (cells_bytes cs)) \<le> INT_MAX"
    using b1 by (simp add: cl)
  from HistoryFile_add_append[OF c0 this]
  obtain c1 where c1: "HistoryFile_add (cells_bytes cs) (int (length (cells_bytes cs))) (hs_cells s) = Some c1"
    and c1d: "fileData c1 = fileData (hs_cells s) @ cells_bytes cs"
    and c1l: "m_length c1 = m_length (hs_cells s) + int (length (cells_bytes cs))"
    by blast
  define s1 where "s1 = s\<lparr> hs_cells := c1 \<rparr>"
  have a1: "HistoryScrollFile_addCells cs (int (length cs)) s = Some s1"
    using c1 by (simp add: HistoryScrollFile_addCells_def sizeof_Character_def s1_def mult.commute)
  define i0 where "i0 = (if HistoryFile_isMapped (hs_index s1) then HistoryFile_unmap (hs_index s1)
                 else hs_index s1)"
  have i0d: "fileData i0 = fileData (hs_index s)" and i0l: "m_length i0 = m_length (hs_index s)"
    by (simp_all add: i0_def s1_def HistoryFile_unmap_def)
  define locn where "locn = HistoryFile_len (hs_cells s1)"
  have locn: "locn = 12 * int (cellCount (ls @ [(cs, w)]))"
    by (simp add: locn_def HistoryFile_len_def s1_def c1l cl)
  have i00: "m_length i0 = int (length (fileData i0))"
    by (simp add: i0d i0l idt il length_index_bytes)
  have "m_length i0 + int (length (int_bytes locn)) \<le> INT_MAX"
    using b2 by (simp add: i0l il)
  from HistoryFile_add_append[OF i00 this]
  obtain i1 where i1: "HistoryFile_add (int_bytes locn) (int (length (int_bytes locn))) i0 = Some i1"
    and i1d: "fileData i1 = fileData i0 @ int_bytes locn"
    and i1l: "m_length i1 = m_length i0 + int (length (int_bytes locn))"
    by blast
  define flags :: byte where "flags = (if w then 1 else 0)"
  have f0: "m_length (hs_lineflags s1) = int (length (fileData (hs_lineflags s1)))"
    by (simp add: s1_def fd fl)
  have "m_length (hs_lineflags s1) + int (length [flags]) \<le> INT_MAX"
    using b2 by (simp add: s1_def fl)
  from HistoryFile_add_append[OF f0 this]
  obtain lf where lf: "HistoryFile_add [flags] (int (length [flags])) (hs_lineflags s1) = Some lf"
    and lfd: "fileData lf = fileData (hs_lineflags s1) @ [flags]"
    and lfl: "m_length lf = m_length (hs_lineflags s1) + int (length [flags])"
    by blast
  define s2 where "s2 = s1\<lparr> hs_index := i1, hs_lineflags := lf \<rparr>"
  have a2: "HistoryScrollFile_addLine w s1 = Some s2"
    using i1 lf
    by (simp add: HistoryScrollFile_addLine_def Let_def i0_def[symmetric] locn_def[symmetric]
        flags_def[symmetric] sizeof_int_def s2_def)
  have "stores s2 (ls @ [(cs, w)])"
    unfolding stores_def
    using index_snoc[of ls "(cs, w)"]
    by (simp add: s2_def s1_def c1d c1l cd cl i1d i1l i0d i0l idt il lfd lfl fd fl locn flags_def)
  then show ?thesis using a1 a2 by blast
qed

lemma writeLines_stores:
  "stores s ls1 \<Longrightarrow> 12 * int (cellCount (ls1 @ ls2)) \<le> INT_MAX \<Longrightarrow>
   4 * int (length (ls1 @ ls2)) \<le> INT_MAX \<Longrightarrow>
   \<exists>s'. writeLines ls2 s = Some s' \<and> stores s' (ls1 @ ls2)"
proof (induction ls2 arbitrary: ls1 s)
  case Nil
  then show ?case by simp
next
  case (Cons x rest)
  obtain cs w where x: "x = (cs, w)" by (cases x)
  have b1: "12 * int (cellCount (ls1 @ [(cs, w)])) \<le> INT_MAX"
    using Cons.prems(2) by (simp add: x)
  have b2: "4 * int (length (ls1 @ [(cs, w)])) \<le> INT_MAX"
    using Cons.prems(3) by simp
  obtain s1 s2 where a: "HistoryScrollFile_addCells cs (int (length cs)) s = Some s1"
    "HistoryScrollFile_addLine w s1 = Some s2" and st: "stores s2 (ls1 @ [(cs, w)])"
    using stores_step[OF Cons.prems(1) b1 b2] by blast
  have "\<exists>s'. writeLines rest s2 = Some s' \<and> stores s' ((ls1 @ [(cs, w)]) @ rest)"
    using Cons.prems(2,3) by (intro Cons.IH[OF st]) (simp_all add: x)
  then show ?case using a by (simp add: x)
qed

lemma cellCount_take_le: "cellCount (take k ls) \<le> cellCount ls"
proof -
  have "cellCount ls = cellCount (take k ls) + cellCount (drop k ls)"
    using cellCount_append[of "take k ls" "drop k ls"] by simp
  then show ?thesis by simp
qed

lemma cellCount_take_Suc:
  "L < length ls \<Longrightarrow> cellCount (take (Suc L) ls) = cellCount (take L ls) + length (fst (ls ! L))"
  by (simp add: take_Suc_conv_app_nth cellCount_def split_def)

lemma stores_sameContent: "sameContent t s \<Longrightarrow> stores s ls \<Longrightarrow> stores t ls"
  by (simp add: sameContent_def stores_def)

lemma sameContent_stores: "stores t ls \<Longrightarrow> stores s ls \<Longrightarrow> sameContent t s"
  by (simp add: sameContent_def stores_def)

lemma getLines_stores:
  assumes "stores t ls" "4 * int (length ls) \<le> INT_MAX"
  shows "HistoryScrollFile_getLines t = int (length ls)"
proof -
  have "m_length (hs_index t) = 4 * int (length ls)" using assms(1) by (simp add: stores_def)
  then show ?thesis
    using assms(2) div_size_t_small[of "4 * int (length ls)" 4]
    by (simp add: HistoryScrollFile_getLines_def HistoryFile_len_def sizeof_int_def)
qed

lemma startOfLine_stores:
  assumes st: "stores t ls"
    and b1: "12 * int (cellCount ls) \<le> INT_MAX"
    and b2: "4 * int (length ls) \<le> INT_MAX"
    and k: "k \<le> length ls"
  shows "\<exists>t'. HistoryScrollFile_startOfLine (int k) t
               = Some (12 * int (cellCount (take k ls)), t') \<and> stores t' ls"
proof (cases "k = 0")
  case True
  then show ?thesis using st by (simp add: HistoryScrollFile_startOfLine_def)
next
  case False
  then have k0: "0 < k" by simp
  have gl: "HistoryScrollFile_getLines t = int (length ls)" by (rule getLines_stores[OF st b2])
  let ?g = "\<lambda>j. int_bytes (12 * int (cellCount (take (Suc j) ls)))"
  have idt: "fileData (hs_index t) = concat (map ?g [0..<length ls])"
    and il: "m_length (hs_index t) = 4 * int (length ls)"
    using st by (simp_all add: stores_def)
  have "\<exists>i1. (if \<not> HistoryFile_isMapped (hs_index t) then HistoryFile_map (hs_index t)
               else Some (hs_index t)) = Some i1 \<and>
             fileData i1 = fileData (hs_index t) \<and> m_length i1 = m_length (hs_index t)"
    using HistoryFile_map_keeps[of "hs_index t"] by (auto simp add: HistoryFile_isMapped_def)
  then obtain i1 where i1: "(if \<not> HistoryFile_isMapped (hs_index t) then HistoryFile_map (hs_index t)
               else Some (hs_index t)) = Some i1"
    and i1d: "fileData i1 = fileData (hs_index t)" and i1l: "m_length i1 = m_length (hs_index t)"
    by blast
  have "\<exists>i2. HistoryFile_get 4 ((int k - 1) * 4) i1
          = Some (take (nat 4) (drop (nat ((int k - 1) * 4)) (fileData i1)), i2) \<and>
          fileData i2 = fileData i1 \<and> m_length i2 = m_length i1"
    using k k0 by (intro HistoryFile_get_reads) (simp_all add: i1l il)
  then obtain i2 where i2: "HistoryFile_get 4 ((int k - 1) * 4) i1
          = Some (take (nat 4) (drop (nat ((int k - 1) * 4)) (fileData i1)), i2)"
    and i2d: "fileData i2 = fileData i1" and i2l: "m_length i2 = m_length i1"
    by blast
  have n: "nat ((int k - 1) * 4) = 4 * (k - 1)" using k0 by (simp add: nat_mult_distrib)
  have "take 4 (drop (4 * (k - 1)) (concat (map ?g [0..<length ls]))) = ?g ([0..<length ls] ! (k - 1))"
    using k k0 by (intro chunk_nth) simp_all
  then have "take 4 (drop (4 * (k - 1)) (concat (map ?g [0..<length ls])))
             = int_bytes (12 * int (cellCount (take k ls)))"
    using k k0 by simp
  then have bytes: "take (nat 4) (drop (nat ((int k - 1) * 4)) (fileData i1))
               = int_bytes (12 * int (cellCount (take k ls)))"
    unfolding n i1d idt by simp
  have "12 * int (cellCount (take k ls)) \<le> INT_MAX"
    using cellCount_take_le[of k ls] b1 by simp
  then have val: "bytes_int (int_bytes (12 * int (cellCount (take k ls))))
             = 12 * int (cellCount (take k ls))"
    by (intro bytes_int_int_bytes) simp_all
  have "stores (t\<lparr> hs_index := i2 \<rparr>) ls"
    using st by (simp add: stores_def i2d i2l i1d i1l)
  then show ?thesis
    using k k0 gl i1 i2 bytes val
    by (simp add: HistoryScrollFile_startOfLine_def sizeof_int_def)
qed

lemma getLineLen_stores:
  assumes st: "stores t ls"
    and b1: "12 * int (cellCount ls) \<le> INT_MAX"
    and b2: "4 * int (length ls) \<le> INT_MAX"
    and L: "L < length ls"
  shows "\<exists>t'. HistoryScrollFile_getLineLen (int L) t
               = Some (int (length (fst (ls ! L))), t') \<and> stores t' ls"
proof -
  obtain t1 where e: "HistoryScrollFile_startOfLine (int (Suc L)) t
               = Some (12 * int (cellCount (take (Suc L) ls)), t1)" and s1: "stores t1 ls"
    using startOfLine_stores[OF st b1 b2, of "Suc L"] L by auto
  obtain t2 where b: "HistoryScrollFile_startOfLine (int L) t1
               = Some (12 * int (cellCount (take L ls)), t2)" and s2: "stores t2 ls"
    using startOfLine_stores[OF s1 b1 b2, of L] L by auto
  have d: "12 * int (cellCount (take (Suc L) ls)) - 12 * int (cellCount (take L ls))
           = 12 * int (length (fst (ls ! L)))"
    using cellCount_take_Suc[OF L] by simp
  have "12 * int (length (fst (ls ! L))) \<le> INT_MAX"
    using cellCount_take_le[of "Suc L" ls] cellCount_take_Suc[OF L] b1 by simp
  then have "div_size_t (12 * int (length (fst (ls ! L)))) 12 = int (length (fst (ls ! L)))"
    using div_size_t_small[of "12 * int (length (fst (ls ! L)))" 12] by simp
  then show ?thesis
    using e b s2 d
    by (simp add: HistoryScrollFile_getLineLen_def sizeof_Character_def add.commute)
qed

lemma isWrappedLine_stores:
  assumes st: "stores t ls"
    and b2: "4 * int (length ls) \<le> INT_MAX"
    and L: "L < length ls"
  shows "\<exists>t'. HistoryScrollFile_isWrappedLine (int L) t = Some (snd (ls ! L), t') \<and> stores t' ls"
proof -
  have gl: "HistoryScrollFile_getLines t = int (length ls)" by (rule getLines_stores[OF st b2])
  have fd: "fileData (hs_lineflags t) = map (\<lambda>(cs, w). if w then 1 else 0) ls"
    and fl: "m_length (hs_lineflags t) = int (length ls)"
    using st by (simp_all add: stores_def)
  have "\<exists>lf. HistoryFile_get 1 (int L) (hs_lineflags t)
          = Some (take (nat 1) (drop (nat (int L)) (fileData (hs_lineflags t))), lf) \<and>
          fileData lf = fileData (hs_lineflags t) \<and> m_length lf = m_length (hs_lineflags t)"
    using L by (intro HistoryFile_get_reads) (simp_all add: fl)
  then obtain lf where g: "HistoryFile_get 1 (int L) (hs_lineflags t)
          = Some (take (nat 1) (drop (nat (int L)) (fileData (hs_lineflags t))), lf)"
    and lfd: "fileData lf = fileData (hs_lineflags t)" and lfl: "m_length lf = m_length (hs_lineflags t)"
    by blast
  have "take (nat 1) (drop (nat (int L)) (fileData (hs_lineflags t))) ! 0
        = (if snd (ls ! L) then 1 else (0 :: byte))"
    using L by (simp add: fd split_def)
  then have flag: "(take (nat 1) (drop (nat (int L)) (fileData (hs_lineflags t))) ! 0 \<noteq> 0)
        = snd (ls ! L)"
    by simp
  have "stores (t\<lparr> hs_lineflags := lf \<rparr>) ls"
    using st by (simp add: stores_def lfd lfl)
  then show ?thesis
    using L gl g flag by (simp add: HistoryScrollFile_isWrappedLine_def)
qed

lemma getCells_stores:
  assumes st: "stores t ls"
    and b1: "12 * int (cellCount ls) \<le> INT_MAX"
    and b2: "4 * int (length ls) \<le> INT_MAX"
    and L: "L < length ls"
    and buf: "length (fst (ls ! L)) \<le> length buffer"
  shows "\<exists>t'. HistoryScrollFile_getCells (int L) 0 (int (length (fst (ls ! L)))) buffer t
               = Some (fst (ls ! L) @ drop (length (fst (ls ! L))) buffer, t') \<and> stores t' ls"
proof -
  let ?cs = "fst (ls ! L)"
  let ?xss = "map (\<lambda>(cs, w). cells_bytes cs) ls"
  obtain t1 where b: "HistoryScrollFile_startOfLine (int L) t
               = Some (12 * int (cellCount (take L ls)), t1)" and s1: "stores t1 ls"
    using startOfLine_stores[OF st b1 b2, of L] L by auto
  have cd: "fileData (hs_cells t1) = concat ?xss"
    and cl: "m_length (hs_cells t1) = 12 * int (cellCount ls)"
    using s1 by (simp_all add: stores_def)
  have le: "cellCount (take L ls) + length ?cs \<le> cellCount ls"
    using cellCount_take_le[of "Suc L" ls] cellCount_take_Suc[OF L] by simp
  have "\<exists>c2. HistoryFile_get (int (length ?cs) * 12) (12 * int (cellCount (take L ls))) (hs_cells t1)
          = Some (take (nat (int (length ?cs) * 12))
                    (drop (nat (12 * int (cellCount (take L ls)))) (fileData (hs_cells t1))), c2) \<and>
          fileData c2 = fileData (hs_cells t1) \<and> m_length c2 = m_length (hs_cells t1)"
    using le by (intro HistoryFile_get_reads) (simp_all add: cl)
  then obtain c2 where g: "HistoryFile_get (int (length ?cs) * 12)
            (12 * int (cellCount (take L ls))) (hs_cells t1)
          = Some (take (nat (int (length ?cs) * 12))
                    (drop (nat (12 * int (cellCount (take L ls)))) (fileData (hs_cells t1))), c2)"
    and c2d: "fileData c2 = fileData (hs_cells t1)" and c2l: "m_length c2 = m_length (hs_cells t1)"
    by blast
  have n1: "nat (int (length ?cs) * 12) = length (?xss ! L)"
    using L by (simp add: split_def nat_mult_distrib)
  have n2: "nat (12 * int (cellCount (take L ls))) = length (concat (take L ?xss))"
    using length_lines_bytes[of "take L ls"] by (simp add: take_map nat_mult_distrib)
  have "take (length (?xss ! L)) (drop (length (concat (take L ?xss))) (concat ?xss)) = ?xss ! L"
    using L by (intro concat_drop_take) simp
  then have bytes: "take (nat (int (length ?cs) * 12))
                    (drop (nat (12 * int (cellCount (take L ls)))) (fileData (hs_cells t1)))
               = cells_bytes ?cs"
    using L by (simp add: n1 n2 cd split_def)
  have "stores (t1\<lparr> hs_cells := c2 \<rparr>) ls"
    using s1 by (simp add: stores_def c2d c2l)
  then show ?thesis
    using b g bytes buf bytes_cells_cells_bytes[of ?cs]
    by (simp add: HistoryScrollFile_getCells_def sizeof_Character_def)
qed

lemma writeLines_append:
  "writeLines (xs @ ys) s = (case writeLines xs s of None \<Rightarrow> None | Some s1 \<Rightarrow> writeLines ys s1)"
proof (induction xs arbitrary: s)
  case Nil
  then show ?case by simp
next
  case (Cons x rest)
  obtain cs w where x: "x = (cs, w)" by (cases x)
  show ?case
    using Cons.IH
    by (simp add: x bind_eq_None_conv split: option.splits Option.bind_splits)
qed

lemma cellCount_replicate: "cellCount (replicate n (cs, w)) = n * length cs"
  by (induction n) simp_all

text \<open>
  C5 (amended). When the lines \<open>ls\<close> (cells and wrapped flag of each) are written to an empty
  file-backed store with the pairing contract, and the cells file and the index file stay
  within the range of the \<^verbatim>\<open>int\<close> offsets the code keeps, every write succeeds and the
  store reports \<open>length ls\<close> lines. Then, in this store and in every store with the same
  file contents (whatever is mapped, whatever the read/write balances), each line index
  \<open>L\<close> below \<open>getLines\<close> reads back the length of the line, its wrapped flag, and with
  \<^verbatim>\<open>getCells(L, 0, getLineLen(L))\<close> exactly its cells; and every read leaves the file
  contents as they are, so that the same holds after any number of reads.
\<close>

theorem file_roundtrip:
  assumes b1: "sizeof_Character * int (cellCount ls) \<le> INT_MAX"
    and b2: "sizeof_int * int (length ls) \<le> INT_MAX"
  shows "\<exists>s. writeLines ls HistoryScrollFile_new = Some s \<and>
           HistoryScrollFile_getLines s = int (length ls) \<and>
           (\<forall>t L buffer. sameContent t s \<and> L < length ls \<and> length (fst (ls ! L)) \<le> length buffer \<longrightarrow>
              (\<exists>t1. HistoryScrollFile_getLineLen (int L) t
                       = Some (int (length (fst (ls ! L))), t1) \<and> sameContent t1 s) \<and>
              (\<exists>t2. HistoryScrollFile_isWrappedLine (int L) t = Some (snd (ls ! L), t2) \<and>
                     sameContent t2 s) \<and>
              (\<exists>t3. HistoryScrollFile_getCells (int L) 0 (int (length (fst (ls ! L)))) buffer t
                       = Some (fst (ls ! L) @ drop (length (fst (ls ! L))) buffer, t3) \<and>
                     sameContent t3 s))"
proof -
  have c1: "12 * int (cellCount ls) \<le> INT_MAX" using b1 by (simp add: sizeof_Character_def)
  have c2: "4 * int (length ls) \<le> INT_MAX" using b2 by (simp add: sizeof_int_def)
  obtain s where w: "writeLines ls HistoryScrollFile_new = Some s" and st: "stores s ls"
    using writeLines_stores[OF stores_new, of ls] c1 c2 by auto
  have "(\<exists>t1. HistoryScrollFile_getLineLen (int L) t
                       = Some (int (length (fst (ls ! L))), t1) \<and> sameContent t1 s) \<and>
        (\<exists>t2. HistoryScrollFile_isWrappedLine (int L) t = Some (snd (ls ! L), t2) \<and>
                     sameContent t2 s) \<and>
        (\<exists>t3. HistoryScrollFile_getCells (int L) 0 (int (length (fst (ls ! L)))) buffer t
                       = Some (fst (ls ! L) @ drop (length (fst (ls ! L))) buffer, t3) \<and>
                     sameContent t3 s)"
    if h: "sameContent t s \<and> L < length ls \<and> length (fst (ls ! L)) \<le> length buffer"
    for t L buffer
  proof -
    have tt: "stores t ls" using h st stores_sameContent by blast
    have L: "L < length ls" and buf: "length (fst (ls ! L)) \<le> length buffer" using h by simp_all
    show ?thesis
      using getLineLen_stores[OF tt c1 c2 L] isWrappedLine_stores[OF tt c2 L]
        getCells_stores[OF tt c1 c2 L buf] sameContent_stores[OF _ st]
      by blast
  qed
  then show ?thesis
    using w getLines_stores[OF st c2] by blast
qed

text \<open>
  Witness for C5: "foo" (wrapped) and "bar" are written; line 0 has length 3 and is wrapped,
  and the three cells of line 1 read back as "bar".
\<close>

theorem file_roundtrip_witness:
  "sizeof_Character * int (cellCount fooBar) \<le> INT_MAX \<and>
   sizeof_int * int (length fooBar) \<le> INT_MAX \<and>
   (\<exists>s. writeLines fooBar HistoryScrollFile_new = Some s \<and>
        HistoryScrollFile_getLines s = 2 \<and>
        map_option fst (HistoryScrollFile_getLineLen 0 s) = Some 3 \<and>
        map_option fst (HistoryScrollFile_isWrappedLine 0 s) = Some True \<and>
        map_option fst (HistoryScrollFile_getCells 1 0 3 (replicate 3 Character_default) s)
          = Some [cell 98, cell 97, cell 114])"
proof -
  have b1: "sizeof_Character * int (cellCount fooBar) \<le> INT_MAX"
    by (simp add: fooBar_def sizeof_Character_def INT_MAX_def)
  have b2: "sizeof_int * int (length fooBar) \<le> INT_MAX"
    by (simp add: fooBar_def sizeof_int_def INT_MAX_def)
  obtain s where w: "writeLines fooBar HistoryScrollFile_new = Some s"
    and n: "HistoryScrollFile_getLines s = int (length fooBar)"
    and r: "\<And>t L buffer. sameContent t s \<and> L < length fooBar \<and>
                length (fst (fooBar ! L)) \<le> length buffer \<Longrightarrow>
              (\<exists>t1. HistoryScrollFile_getLineLen (int L) t
                       = Some (int (length (fst (fooBar ! L))), t1) \<and> sameContent t1 s) \<and>
              (\<exists>t2. HistoryScrollFile_isWrappedLine (int L) t = Some (snd (fooBar ! L), t2) \<and>
                     sameContent t2 s) \<and>
              (\<exists>t3. HistoryScrollFile_getCells (int L) 0 (int (length (fst (fooBar ! L)))) buffer t
                       = Some (fst (fooBar ! L) @ drop (length (fst (fooBar ! L))) buffer, t3) \<and>
                     sameContent t3 s)"
    using file_roundtrip [OF b1 b2] by blast
  have ss: "sameContent s s" by (simp add: sameContent_def)
  have r0: "map_option fst (HistoryScrollFile_getLineLen 0 s) = Some 3"
    "map_option fst (HistoryScrollFile_isWrappedLine 0 s) = Some True"
    using r[of s 0 "replicate 3 Character_default"] ss by (auto simp add: fooBar_def)
  have r1: "map_option fst (HistoryScrollFile_getCells 1 0 3 (replicate 3 Character_default) s)
          = Some [cell 98, cell 97, cell 114]"
    using r[of s 1 "replicate 3 Character_default"] ss by (auto simp add: fooBar_def)
  show ?thesis using b1 b2 w n r0 r1 by (auto simp add: fooBar_def)
qed

text \<open>
  Counterexample for C5: 2236963 lines of 80 cells, each followed by its \<^verbatim>\<open>addLine\<close>.
  The first 2236962 lines are written and fill 2147483520 bytes of the cells file; the next
  \<^verbatim>\<open>addCells\<close> would carry the \<^verbatim>\<open>int\<close> length of the file past 2147483647, and the
  sequence of writes has no result.
\<close>

theorem file_offsets_overflow:
  "map_option (\<lambda>s. HistoryFile_len (hs_cells s))
     (writeLines (replicate 2236962 (replicate 80 (cell 97), False)) HistoryScrollFile_new)
     = Some 2147483520 \<and>
   writeLines (replicate 2236963 (replicate 80 (cell 97), False)) HistoryScrollFile_new = None"
proof -
  let ?x = "(replicate 80 (cell 97), False)"
  let ?ls = "replicate 2236962 ?x"
  have c: "cellCount ?ls = 178956960" by (simp add: cellCount_replicate)
  have "\<exists>s. writeLines ?ls HistoryScrollFile_new = Some s \<and> stores s ([] @ ?ls)"
    by (rule writeLines_stores[OF stores_new]) (simp_all add: c INT_MAX_def)
  then obtain s where w: "writeLines ?ls HistoryScrollFile_new = Some s" and st: "stores s ?ls"
    by auto
  have len: "m_length (hs_cells s) = 2147483520" using st c by (simp add: stores_def)
  have a: "HistoryScrollFile_addCells (replicate 80 (cell 97)) 80 s = None"
    using len
    by (simp add: HistoryScrollFile_addCells_def HistoryFile_add_def HistoryFile_unmap_def
        Let_def INT_MAX_def sizeof_Character_def)
  have "replicate (2236962 + 1) ?x = ?ls @ replicate 1 ?x" by (rule replicate_add)
  then have "replicate 2236963 ?x = ?ls @ [?x]" by simp
  then have "writeLines (replicate 2236963 ?x) HistoryScrollFile_new = writeLines [?x] s"
    using w by (simp only: writeLines_append option.case)
  also have "\<dots> = None" using a by simp
  finally show ?thesis using w len by (simp add: HistoryFile_len_def)
qed

text \<open>
  The index file has the same bound: after 536870911 empty lines it holds 2147483644 bytes,
  and the next \<^verbatim>\<open>addLine\<close> would carry its length past 2147483647.
\<close>

lemma file_index_overflow:
  "map_option (\<lambda>s. HistoryFile_len (hs_index s))
     (writeLines (replicate 536870911 ([], False)) HistoryScrollFile_new) = Some 2147483644 \<and>
   writeLines (replicate 536870912 ([], False)) HistoryScrollFile_new = None"
proof -
  let ?x = "([] :: Character list, False)"
  let ?ls = "replicate 536870911 ?x"
  have c: "cellCount ?ls = 0" by (simp add: cellCount_replicate)
  have "\<exists>s. writeLines ?ls HistoryScrollFile_new = Some s \<and> stores s ([] @ ?ls)"
    by (rule writeLines_stores[OF stores_new]) (simp_all add: c INT_MAX_def)
  then obtain s where w: "writeLines ?ls HistoryScrollFile_new = Some s" and st: "stores s ?ls"
    by auto
  have len: "m_length (hs_index s) = 2147483644" "m_length (hs_cells s) = 0"
    using st c by (simp_all add: stores_def)
  have a: "writeLines [?x] s = None"
    using len
    by (simp add: HistoryScrollFile_addCells_def HistoryScrollFile_addLine_def HistoryFile_add_def
        HistoryFile_unmap_def HistoryFile_isMapped_def HistoryFile_len_def Let_def INT_MAX_def
        sizeof_Character_def sizeof_int_def)
  have "replicate (536870911 + 1) ?x = ?ls @ replicate 1 ?x" by (rule replicate_add)
  then have "replicate 536870912 ?x = ?ls @ [?x]" by simp
  then have "writeLines (replicate 536870912 ?x) HistoryScrollFile_new = writeLines [?x] s"
    using w by (simp only: writeLines_append option.case)
  also have "\<dots> = None" by (rule a)
  finally show ?thesis using w len by (simp add: HistoryFile_len_def)
qed

end
